theory Spec2Isabelle
  imports Complex_Main "HOL-Library.Word" "HOL-Library.Multiset"
begin

section \<open>Concurrent sets of the Parallel Programming library, at quiescence\<close>

text \<open>
  The two set classes are modelled as they run when no other operation is in flight: one
  operation at a time, every lock idle when an operation starts and idle again when it
  returns. Under that regime \<open>lock\<close>/\<open>unlock\<close> do not change the data, so the lock
  fields are left out, and a call on a lock is kept only where it can fail to return
  (\<open>Edge_Lock\<close> below); everything else of the source functions is kept, statement by
  statement.

  \<^item> \<^verbatim>\<open>std::size_t\<close> and \<^verbatim>\<open>std::atomic<size_t>\<close> counters are 64-bit words:
    \<^verbatim>\<open>fetch_add\<close> and \<^verbatim>\<open>fetch_sub\<close> wrap around.
  \<^item> A \<^verbatim>\<open>Node*\<close> is an optional arena address; \<open>None\<close> is \<^verbatim>\<open>nullptr\<close>.
  \<^item> What C++ leaves undefined (a null dereference, a remainder by zero) is an error value.
  \<^item> A loop or a recursion that may run forever returns \<open>None\<close> when it does.
  \<^item> A name cannot end in an underscore here: the data member \<^verbatim>\<open>next_\<close> is written
    \<open>next_m\<close>, and so for every member. The member functions of the two classes are
    told apart by the prefixes \<open>Linked_\<close> and \<open>Striped_\<close>.
\<close>

type_synonym size_t = "64 word"

datatype error = NullDereference | InvalidPointer | DivisionByZero


section \<open>OptimisticLinkedSet\<close>

subsection \<open>ElementTraits\<close>

text \<open>
  \<^verbatim>\<open>ElementTraits<T>::Min()\<close> and \<^verbatim>\<open>Max()\<close> return \<^verbatim>\<open>std::numeric_limits<T>::min()\<close>
  and \<^verbatim>\<open>max()\<close>: for an integer type \<^verbatim>\<open>T\<close> the least and the greatest value of the
  type. The element type is any linear order with a least and a greatest element;
  \<open>32 word\<close> is \<^verbatim>\<open>uint32_t\<close>.
\<close>

definition ElementTraits_Min :: "'a::order_bot" where
  "ElementTraits_Min = bot"

definition ElementTraits_Max :: "'a::order_top" where
  "ElementTraits_Max = top"

subsection \<open>Nodes, edges and the arena\<close>

record 'a Node =
  element_m :: 'a
  next_m :: "nat option"
  marked_m :: bool

record Edge =
  pred_m :: "nat option"
  curr_m :: "nat option"

record 'a OptimisticLinkedSet =
  allocator_m :: "'a Node list"
  head_m :: "nat option"
  elements_m :: size_t

text \<open>
  Modelled from the spec: the arena allocator (\<^verbatim>\<open>arena_allocator.h\<close> is not among the
  sources). Its one operation constructs an object and returns a reference that stays
  valid for the arena's lifetime; nothing is ever freed and allocation does not fail. The
  arena is the list of the nodes allocated so far and a reference is an index into it.
  The \<^verbatim>\<open>Node\<close> constructor stores the element and the successor; \<^verbatim>\<open>marked_\<close> starts as
  \<^verbatim>\<open>false\<close>.
\<close>

definition New :: "'a Node list \<Rightarrow> 'a \<Rightarrow> nat option \<Rightarrow> nat option \<times> 'a Node list" where
  "New ar element nxt =
     (Some (length ar), ar @ [\<lparr>element_m = element, next_m = nxt, marked_m = False\<rparr>])"

text \<open>Reading through a pointer: \<^verbatim>\<open>p->field\<close>.\<close>

definition deref :: "'a Node list \<Rightarrow> nat option \<Rightarrow> error + 'a Node" where
  "deref ar p =
     (case p of
        None \<Rightarrow> Inl NullDereference
      | Some a \<Rightarrow> if a < length ar then Inr (ar ! a) else Inl InvalidPointer)"

text \<open>Writing \<^verbatim>\<open>p->next_.store(q)\<close>.\<close>

definition store_next :: "'a Node list \<Rightarrow> nat option \<Rightarrow> nat option \<Rightarrow> error + 'a Node list" where
  "store_next ar p q =
     (case p of
        None \<Rightarrow> Inl NullDereference
      | Some a \<Rightarrow> if a < length ar then Inr (ar[a := (ar ! a)\<lparr>next_m := q\<rparr>])
                  else Inl InvalidPointer)"

subsection \<open>The operations\<close>

definition CreateEmptyList :: "'a::{order_bot,order_top} Node list \<Rightarrow> nat option \<times> 'a Node list" where
  "CreateEmptyList ar =
     (let (h, ar1) = New ar ElementTraits_Min None;
          (t, ar2) = New ar1 ElementTraits_Max None
      in (h, case h of None \<Rightarrow> ar2 | Some a \<Rightarrow> ar2[a := (ar2 ! a)\<lparr>next_m := t\<rparr>]))"

definition OptimisticLinkedSet_new :: "'a::{order_bot,order_top} Node list \<Rightarrow> 'a OptimisticLinkedSet" where
  "OptimisticLinkedSet_new allocator =
     (let (h, ar) = CreateEmptyList allocator
      in \<lparr>allocator_m = ar, head_m = h, elements_m = 0\<rparr>)"

text \<open>
  The loop of \<^verbatim>\<open>Locate\<close>: \<^verbatim>\<open>while (curr->element_ < element) { pred = curr; curr = curr->next_; }\<close>.
  It has no null check and no bound. (\<open>cur\<close> is the local \<^verbatim>\<open>curr\<close>, a name HOL has taken.)
\<close>

partial_function (option) Locate_loop ::
  "'a::linorder Node list \<Rightarrow> 'a \<Rightarrow> nat option \<Rightarrow> nat option \<Rightarrow> (error + Edge) option" where
  "Locate_loop ar element pred cur =
     (case deref ar cur of
        Inl e \<Rightarrow> Some (Inl e)
      | Inr c \<Rightarrow>
          if element_m c < element then Locate_loop ar element cur (next_m c)
          else Some (Inr \<lparr>pred_m = pred, curr_m = cur\<rparr>))"

definition Locate :: "'a::linorder OptimisticLinkedSet \<Rightarrow> 'a \<Rightarrow> (error + Edge) option" where
  "Locate s element =
     (case deref (allocator_m s) (head_m s) of
        Inl e \<Rightarrow> Some (Inl e)
      | Inr h \<Rightarrow> Locate_loop (allocator_m s) element (head_m s) (next_m h))"

definition Validate :: "'a OptimisticLinkedSet \<Rightarrow> Edge \<Rightarrow> error + bool" where
  "Validate s edge =
     (case deref (allocator_m s) (pred_m edge) of
        Inl e \<Rightarrow> Inl e
      | Inr p \<Rightarrow>
          if marked_m p then Inr False
          else (case deref (allocator_m s) (curr_m edge) of
                  Inl e \<Rightarrow> Inl e
                | Inr c \<Rightarrow> if marked_m c then Inr False else Inr (next_m p = curr_m edge)))"

text \<open>
  \<^verbatim>\<open>Edge::Lock\<close> reaches the lock of \<^verbatim>\<open>pred_\<close> and then the lock of \<^verbatim>\<open>curr_\<close>
  through the two pointers. Both locks are idle when it starts, so it returns at once,
  unless the two pointers are the same node: the second \<^verbatim>\<open>SpinLock::Lock\<close> then spins
  forever on the lock the first one took.
\<close>

definition Edge_Lock :: "'a Node list \<Rightarrow> Edge \<Rightarrow> (error + unit) option" where
  "Edge_Lock ar edge =
     (case deref ar (pred_m edge) of
        Inl e \<Rightarrow> Some (Inl e)
      | Inr p \<Rightarrow>
          (case deref ar (curr_m edge) of
             Inl e \<Rightarrow> Some (Inl e)
           | Inr c \<Rightarrow> if pred_m edge = curr_m edge then None else Some (Inr ())))"

text \<open>
  \<^verbatim>\<open>Insert\<close> and \<^verbatim>\<open>Remove\<close> are \<^verbatim>\<open>while (true)\<close> loops: a failed validation
  \<^verbatim>\<open>continue\<close>s, which is the recursive call.
\<close>

partial_function (option) Linked_Insert ::
  "'a::linorder OptimisticLinkedSet \<Rightarrow> 'a \<Rightarrow> (error + bool \<times> 'a OptimisticLinkedSet) option" where
  "Linked_Insert s element =
     (case Locate s element of
        None \<Rightarrow> None
      | Some (Inl e) \<Rightarrow> Some (Inl e)
      | Some (Inr search_result) \<Rightarrow>
          (case Edge_Lock (allocator_m s) search_result of
             None \<Rightarrow> None
           | Some (Inl e) \<Rightarrow> Some (Inl e)
           | Some (Inr locked) \<Rightarrow>
               (case Validate s search_result of
                  Inl e \<Rightarrow> Some (Inl e)
                | Inr valid \<Rightarrow>
                    if \<not> valid then Linked_Insert s element
                    else
                      (case deref (allocator_m s) (curr_m search_result) of
                         Inl e \<Rightarrow> Some (Inl e)
                       | Inr c \<Rightarrow>
                           if element_m c = element then Some (Inr (False, s))
                           else
                             (let (new_node, ar1) =
                                    New (allocator_m s) element (curr_m search_result)
                              in case store_next ar1 (pred_m search_result) new_node of
                                   Inl e \<Rightarrow> Some (Inl e)
                                 | Inr ar2 \<Rightarrow>
                                     Some (Inr (True, s\<lparr>allocator_m := ar2,
                                                       elements_m := elements_m s + 1\<rparr>)))))))"

partial_function (option) Linked_Remove ::
  "'a::linorder OptimisticLinkedSet \<Rightarrow> 'a \<Rightarrow> (error + bool \<times> 'a OptimisticLinkedSet) option" where
  "Linked_Remove s element =
     (case Locate s element of
        None \<Rightarrow> None
      | Some (Inl e) \<Rightarrow> Some (Inl e)
      | Some (Inr search_result) \<Rightarrow>
          (case Edge_Lock (allocator_m s) search_result of
             None \<Rightarrow> None
           | Some (Inl e) \<Rightarrow> Some (Inl e)
           | Some (Inr locked) \<Rightarrow>
               (case Validate s search_result of
                  Inl e \<Rightarrow> Some (Inl e)
                | Inr valid \<Rightarrow>
                    if \<not> valid then Linked_Remove s element
                    else
                      (case deref (allocator_m s) (curr_m search_result) of
                         Inl e \<Rightarrow> Some (Inl e)
                       | Inr c \<Rightarrow>
                           if element_m c \<noteq> element then Some (Inr (False, s))
                           else
                             (case store_next (allocator_m s) (pred_m search_result) (next_m c) of
                                Inl e \<Rightarrow> Some (Inl e)
                              | Inr ar1 \<Rightarrow>
                                  Some (Inr (True, s\<lparr>allocator_m := ar1,
                                                    elements_m := elements_m s - 1\<rparr>)))))))"

definition Linked_Contains :: "'a::linorder OptimisticLinkedSet \<Rightarrow> 'a \<Rightarrow> (error + bool) option" where
  "Linked_Contains s element =
     (case Locate s element of
        None \<Rightarrow> None
      | Some (Inl e) \<Rightarrow> Some (Inl e)
      | Some (Inr search_result) \<Rightarrow>
          (case deref (allocator_m s) (curr_m search_result) of
             Inl e \<Rightarrow> Some (Inl e)
           | Inr candidate \<Rightarrow> Some (Inr (\<not> marked_m candidate \<and> element_m candidate = element))))"

definition Linked_Size :: "'a OptimisticLinkedSet \<Rightarrow> size_t" where
  "Linked_Size s = elements_m s"


section \<open>StripedHashSet\<close>

text \<open>
  The two variants of \<^verbatim>\<open>StripedHashSet.h\<close> differ only in the lock type of a stripe
  (\<^verbatim>\<open>std::mutex\<close> or the \<^verbatim>\<open>ReadWriteLock\<close> of the file); their member functions are
  the same text otherwise, so one model stands for both.

  The hash functor is a parameter \<open>hash\<close> of every function. The table is a list of
  buckets, a bucket the list of its elements from the front. Container sizes, the number of
  stripes, the growth factor and the stored load limit are \<^verbatim>\<open>std::size_t\<close> values, written
  as naturals (below \<open>2 ^ 64\<close> in the code); where the code multiplies two of them, in
  \<^verbatim>\<open>Rehash\<close>, the product wraps around and the model reduces it modulo \<open>2 ^ 64\<close>. The
  element counter is a \<^verbatim>\<open>size_t\<close> word. Allocating a table does not fail.
\<close>

record 'a StripedHashSet =
  growth_factor_m :: nat
  max_load_factor_m :: nat
  num_elements_m :: size_t
  num_stripes_m :: nat
  hash_table_m :: "'a list list"

text \<open>
  The constructor takes \<^verbatim>\<open>const double load_factor = 1.25\<close> and stores it in the member
  \<^verbatim>\<open>std::size_t max_load_factor_\<close>: the conversion drops the fraction. (It is defined
  for a load factor that is not negative; the theorems below assume that where it matters.)
\<close>

definition StripedHashSet_new :: "nat \<Rightarrow> nat \<Rightarrow> real \<Rightarrow> 'a StripedHashSet" where
  "StripedHashSet_new concurrency_level growth_factor load_factor =
     \<lparr>growth_factor_m = growth_factor,
      max_load_factor_m = nat \<lfloor>load_factor\<rfloor>,
      num_elements_m = 0,
      num_stripes_m = concurrency_level,
      hash_table_m = replicate concurrency_level []\<rparr>"

text \<open>The default arguments \<^verbatim>\<open>growth_factor = 2\<close> and \<^verbatim>\<open>load_factor = 1.25\<close>.\<close>

definition StripedHashSet_default :: "nat \<Rightarrow> 'a StripedHashSet" where
  "StripedHashSet_default concurrency_level = StripedHashSet_new concurrency_level 2 (5 / 4)"

text \<open>
  \<^verbatim>\<open>GetLoadFactor\<close> divides as \<^verbatim>\<open>double\<close> and returns \<^verbatim>\<open>std::size_t\<close>: the quotient
  is truncated, which for counts below \<open>2 ^ 53\<close> is the integer quotient. With no bucket
  the division is by zero and the conversion undefined.
\<close>

definition GetLoadFactor :: "'a StripedHashSet \<Rightarrow> error + nat" where
  "GetLoadFactor s =
     (if length (hash_table_m s) = 0 then Inl DivisionByZero
      else Inr (unat (num_elements_m s) div length (hash_table_m s)))"

definition GetBucketIndex :: "'a StripedHashSet \<Rightarrow> nat \<Rightarrow> error + nat" where
  "GetBucketIndex s element_hash_value =
     (if length (hash_table_m s) = 0 then Inl DivisionByZero
      else Inr (element_hash_value mod length (hash_table_m s)))"

definition GetStripeIndex :: "'a StripedHashSet \<Rightarrow> nat \<Rightarrow> error + nat" where
  "GetStripeIndex s element_hash_value =
     (if num_stripes_m s = 0 then Inl DivisionByZero
      else Inr (element_hash_value mod num_stripes_m s))"

text \<open>
  The two nested loops of \<^verbatim>\<open>Rehash\<close>: every item of every bucket, in order, is pushed to
  the front of \<^verbatim>\<open>temp[hash(item) % new_size]\<close>. The new size is the \<^verbatim>\<open>size_t\<close> product
  \<^verbatim>\<open>hash_table_.size() * growth_factor_\<close>, which wraps around at \<open>2 ^ 64\<close>: it can be 0,
  and then the first item divides by zero.
\<close>

fun Rehash_bucket :: "('a \<Rightarrow> nat) \<Rightarrow> nat \<Rightarrow> 'a list list \<Rightarrow> 'a list \<Rightarrow> error + 'a list list" where
  "Rehash_bucket hash new_size temp [] = Inr temp"
| "Rehash_bucket hash new_size temp (item # bucket) =
     (if new_size = 0 then Inl DivisionByZero
      else let bucket_index = hash item mod new_size
           in Rehash_bucket hash new_size (temp[bucket_index := item # temp ! bucket_index]) bucket)"

fun Rehash_table :: "('a \<Rightarrow> nat) \<Rightarrow> nat \<Rightarrow> 'a list list \<Rightarrow> 'a list list \<Rightarrow> error + 'a list list" where
  "Rehash_table hash new_size temp [] = Inr temp"
| "Rehash_table hash new_size temp (bucket # buckets) =
     (case Rehash_bucket hash new_size temp bucket of
        Inl e \<Rightarrow> Inl e
      | Inr temp' \<Rightarrow> Rehash_table hash new_size temp' buckets)"

definition Rehash :: "('a \<Rightarrow> nat) \<Rightarrow> 'a StripedHashSet \<Rightarrow> error + 'a StripedHashSet" where
  "Rehash hash s =
     (case GetLoadFactor s of
        Inl e \<Rightarrow> Inl e
      | Inr load \<Rightarrow>
          if load \<le> max_load_factor_m s then Inr s
          else
            (let new_size = (length (hash_table_m s) * growth_factor_m s) mod 2 ^ 64
             in case Rehash_table hash new_size (replicate new_size []) (hash_table_m s) of
                  Inl e \<Rightarrow> Inl e
                | Inr temp \<Rightarrow> Inr (s\<lparr>hash_table_m := temp\<rparr>)))"

text \<open>
  \<^verbatim>\<open>Insert\<close> calls itself after \<^verbatim>\<open>Rehash\<close>. \<^verbatim>\<open>std::find\<close> over a bucket is
  membership in its list.
\<close>

partial_function (option) Striped_Insert ::
  "('a \<Rightarrow> nat) \<Rightarrow> 'a StripedHashSet \<Rightarrow> 'a \<Rightarrow> (error + bool \<times> 'a StripedHashSet) option" where
  "Striped_Insert hash s element =
     (case GetStripeIndex s (hash element) of
        Inl e \<Rightarrow> Some (Inl e)
      | Inr stripe_index \<Rightarrow>
          (case GetBucketIndex s (hash element) of
             Inl e \<Rightarrow> Some (Inl e)
           | Inr bucket_index \<Rightarrow>
               if element \<in> set (hash_table_m s ! bucket_index) then Some (Inr (False, s))
               else (case GetLoadFactor s of
                       Inl e \<Rightarrow> Some (Inl e)
                     | Inr load \<Rightarrow>
                         if load > max_load_factor_m s then
                           (case Rehash hash s of
                              Inl e \<Rightarrow> Some (Inl e)
                            | Inr s' \<Rightarrow> Striped_Insert hash s' element)
                         else
                           Some (Inr (True,
                             s\<lparr>hash_table_m := (hash_table_m s)
                                  [bucket_index := element # hash_table_m s ! bucket_index],
                               num_elements_m := num_elements_m s + 1\<rparr>)))))"

text \<open>\<^verbatim>\<open>std::forward_list::remove\<close> erases every element equal to its argument.\<close>

definition Striped_Remove ::
  "('a \<Rightarrow> nat) \<Rightarrow> 'a StripedHashSet \<Rightarrow> 'a \<Rightarrow> error + bool \<times> 'a StripedHashSet" where
  "Striped_Remove hash s element =
     (case GetStripeIndex s (hash element) of
        Inl e \<Rightarrow> Inl e
      | Inr stripe_index \<Rightarrow>
          (case GetBucketIndex s (hash element) of
             Inl e \<Rightarrow> Inl e
           | Inr bucket_index \<Rightarrow>
               if element \<notin> set (hash_table_m s ! bucket_index) then Inr (False, s)
               else
                 Inr (True,
                   s\<lparr>hash_table_m := (hash_table_m s)
                        [bucket_index := removeAll element (hash_table_m s ! bucket_index)],
                     num_elements_m := num_elements_m s - 1\<rparr>)))"

definition Striped_Contains :: "('a \<Rightarrow> nat) \<Rightarrow> 'a StripedHashSet \<Rightarrow> 'a \<Rightarrow> error + bool" where
  "Striped_Contains hash s element =
     (case GetStripeIndex s (hash element) of
        Inl e \<Rightarrow> Inl e
      | Inr stripe_index \<Rightarrow>
          (case GetBucketIndex s (hash element) of
             Inl e \<Rightarrow> Inl e
           | Inr bucket_index \<Rightarrow> Inr (element \<in> set (hash_table_m s ! bucket_index))))"

definition Striped_Size :: "'a StripedHashSet \<Rightarrow> size_t" where
  "Striped_Size s = num_elements_m s"



section \<open>Sequences of calls\<close>

text \<open>
  A quiescent history is a list of calls, run one after the other on one instance; the
  results are collected in order. An error or a call that does not return ends the run.
\<close>

datatype 'a operation = Insert 'a | Remove 'a | Contains 'a | Size

datatype response = ReturnedBool bool | ReturnedSize size_t

fun Linked_call ::
  "'a::linorder OptimisticLinkedSet \<Rightarrow> 'a operation \<Rightarrow> (error + response \<times> 'a OptimisticLinkedSet) option" where
  "Linked_call s (Insert v) =
     (case Linked_Insert s v of
        None \<Rightarrow> None
      | Some (Inl e) \<Rightarrow> Some (Inl e)
      | Some (Inr (b, s')) \<Rightarrow> Some (Inr (ReturnedBool b, s')))"
| "Linked_call s (Remove v) =
     (case Linked_Remove s v of
        None \<Rightarrow> None
      | Some (Inl e) \<Rightarrow> Some (Inl e)
      | Some (Inr (b, s')) \<Rightarrow> Some (Inr (ReturnedBool b, s')))"
| "Linked_call s (Contains v) =
     (case Linked_Contains s v of
        None \<Rightarrow> None
      | Some (Inl e) \<Rightarrow> Some (Inl e)
      | Some (Inr b) \<Rightarrow> Some (Inr (ReturnedBool b, s)))"
| "Linked_call s Size = Some (Inr (ReturnedSize (Linked_Size s), s))"

fun Linked_run ::
  "'a::linorder OptimisticLinkedSet \<Rightarrow> 'a operation list \<Rightarrow> (error + response list \<times> 'a OptimisticLinkedSet) option" where
  "Linked_run s [] = Some (Inr ([], s))"
| "Linked_run s (c # cs) =
     (case Linked_call s c of
        None \<Rightarrow> None
      | Some (Inl e) \<Rightarrow> Some (Inl e)
      | Some (Inr (r, s')) \<Rightarrow>
          (case Linked_run s' cs of
             None \<Rightarrow> None
           | Some (Inl e) \<Rightarrow> Some (Inl e)
           | Some (Inr (rs, s'')) \<Rightarrow> Some (Inr (r # rs, s''))))"

fun Striped_call ::
  "('a \<Rightarrow> nat) \<Rightarrow> 'a StripedHashSet \<Rightarrow> 'a operation \<Rightarrow> (error + response \<times> 'a StripedHashSet) option" where
  "Striped_call hash s (Insert v) =
     (case Striped_Insert hash s v of
        None \<Rightarrow> None
      | Some (Inl e) \<Rightarrow> Some (Inl e)
      | Some (Inr (b, s')) \<Rightarrow> Some (Inr (ReturnedBool b, s')))"
| "Striped_call hash s (Remove v) =
     (case Striped_Remove hash s v of
        Inl e \<Rightarrow> Some (Inl e)
      | Inr (b, s') \<Rightarrow> Some (Inr (ReturnedBool b, s')))"
| "Striped_call hash s (Contains v) =
     (case Striped_Contains hash s v of
        Inl e \<Rightarrow> Some (Inl e)
      | Inr b \<Rightarrow> Some (Inr (ReturnedBool b, s)))"
| "Striped_call hash s Size = Some (Inr (ReturnedSize (Striped_Size s), s))"

fun Striped_run ::
  "('a \<Rightarrow> nat) \<Rightarrow> 'a StripedHashSet \<Rightarrow> 'a operation list \<Rightarrow> (error + response list \<times> 'a StripedHashSet) option" where
  "Striped_run hash s [] = Some (Inr ([], s))"
| "Striped_run hash s (c # cs) =
     (case Striped_call hash s c of
        None \<Rightarrow> None
      | Some (Inl e) \<Rightarrow> Some (Inl e)
      | Some (Inr (r, s')) \<Rightarrow>
          (case Striped_run hash s' cs of
             None \<Rightarrow> None
           | Some (Inl e) \<Rightarrow> Some (Inl e)
           | Some (Inr (rs, s'')) \<Rightarrow> Some (Inr (r # rs, s''))))"


section \<open>Abstraction and invariants\<close>

subsection \<open>The chain of the linked set\<close>

text \<open>
  \<open>path ar p as q\<close>: following \<^verbatim>\<open>next_\<close> from the pointer \<open>p\<close> visits exactly the
  addresses \<open>as\<close>, all allocated, and arrives at the pointer \<open>q\<close>. The chain of a set is
  the path from its head to \<^verbatim>\<open>nullptr\<close>.
\<close>

fun path :: "'a Node list \<Rightarrow> nat option \<Rightarrow> nat list \<Rightarrow> nat option \<Rightarrow> bool" where
  "path ar p [] q = (p = q)"
| "path ar p (a # as) q = (p = Some a \<and> a < length ar \<and> path ar (next_m (ar ! a)) as q)"

definition unmarked :: "'a Node list \<Rightarrow> bool" where
  "unmarked ar = (\<forall>n \<in> set ar. \<not> marked_m n)"

definition chain_elements :: "'a OptimisticLinkedSet \<Rightarrow> nat list \<Rightarrow> 'a list" where
  "chain_elements s as = map (\<lambda>a. element_m (allocator_m s ! a)) as"

text \<open>
  \<open>linked_rep s h R\<close>: the head sentinel is the node \<open>h\<close> and holds \<^verbatim>\<open>Min()\<close>; the chain
  from it is \<open>h\<close> followed by the nodes \<open>R\<close>, pairwise different; the elements of \<open>R\<close>
  are strictly increasing and the last of them is \<^verbatim>\<open>Max()\<close>, the tail sentinel; no node
  of the arena is marked.
\<close>

definition linked_rep ::
  "'a::{linorder,order_top,order_bot} OptimisticLinkedSet \<Rightarrow> nat \<Rightarrow> nat list \<Rightarrow> bool" where
  "linked_rep s h R \<longleftrightarrow>
     head_m s = Some h \<and> path (allocator_m s) (Some h) (h # R) None \<and> distinct (h # R) \<and>
     unmarked (allocator_m s) \<and>
     element_m (allocator_m s ! h) = ElementTraits_Min \<and>
     sorted_wrt (<) (chain_elements s R) \<and> R \<noteq> [] \<and>
     last (chain_elements s R) = ElementTraits_Max"

subsection \<open>The table of the striped set\<close>

definition striped_contents :: "'a StripedHashSet \<Rightarrow> 'a multiset" where
  "striped_contents s = mset (concat (hash_table_m s))"

text \<open>Every element sits in the bucket its hash selects.\<close>

definition well_placed :: "('a \<Rightarrow> nat) \<Rightarrow> 'a list list \<Rightarrow> bool" where
  "well_placed hash t = (\<forall>i < length t. \<forall>x \<in> set (t ! i). hash x mod length t = i)"

text \<open>
  The invariant of a striped set between two calls: at least one stripe and one bucket,
  every element in its bucket, no element twice, and the counter equal to the number of
  elements in the table.
\<close>

definition striped_inv :: "('a \<Rightarrow> nat) \<Rightarrow> 'a StripedHashSet \<Rightarrow> bool" where
  "striped_inv hash s \<longleftrightarrow>
     0 < num_stripes_m s \<and> 0 < length (hash_table_m s) \<and>
     well_placed hash (hash_table_m s) \<and> distinct (concat (hash_table_m s)) \<and>
     num_elements_m s = of_nat (length (concat (hash_table_m s)))"

subsection \<open>Two sets with the same contents\<close>

text \<open>
  A striped set and a linked set hold the same elements and show the same count; the
  chain of the linked set holds the tail sentinel's value besides, which the striped set
  does not contain.
\<close>

definition same_contents ::
  "('a \<Rightarrow> nat) \<Rightarrow> 'a::{linorder,order_top,order_bot} StripedHashSet \<Rightarrow> 'a OptimisticLinkedSet \<Rightarrow> bool" where
  "same_contents hash sS sL \<longleftrightarrow>
     striped_inv hash sS \<and> 2 \<le> growth_factor_m sS \<and>
     (\<exists>h R. linked_rep sL h R \<and>
        set (chain_elements sL R) = insert ElementTraits_Max (set_mset (striped_contents sS))) \<and>
     ElementTraits_Max \<notin># striped_contents sS \<and>
     num_elements_m sS = elements_m sL"


section \<open>Evaluation\<close>

text \<open>The recursive equations and the sentinels of a word type, for evaluation by rewriting.\<close>

lemma top_word_code [code]: "top = (- 1 :: 'a::len word)"
  by (rule top_word_eq)

lemma bot_word_code [code]: "bot = (0 :: 'a::len word)"
  by (rule bot_word_eq)

declare Locate_loop.simps [code]
declare Linked_Insert.simps [code]
declare Linked_Remove.simps [code]
declare Striped_Insert.simps [code]


section \<open>The linked set: pointer reasoning\<close>

lemma path_append: "path ar p (as @ bs) q \<longleftrightarrow> (\<exists>r. path ar p as r \<and> path ar r bs q)"
  by (induction as arbitrary: p) auto

lemma path_update: "a \<notin> set as \<Longrightarrow> path (ar[a := n]) p as q \<longleftrightarrow> path ar p as q"
  by (induction as arbitrary: p) auto

lemma path_grow: "path ar p as q \<Longrightarrow> path (ar @ ns) p as q"
  by (induction as arbitrary: p) (auto simp: nth_append)

lemma path_bound: "path ar p as q \<Longrightarrow> a \<in> set as \<Longrightarrow> a < length ar"
  by (induction as arbitrary: p) auto

lemma Locate_loop_path:
  "path ar cur (bs @ [c]) q \<Longrightarrow> \<forall>b\<in>set bs. element_m (ar ! b) < v \<Longrightarrow> \<not> element_m (ar ! c) < v \<Longrightarrow>
   Locate_loop ar v pred cur = Some (Inr \<lparr>pred_m = (if bs = [] then pred else Some (last bs)), curr_m = Some c\<rparr>)"
proof (induction bs arbitrary: pred cur)
  case Nil
  then show ?case by (subst Locate_loop.simps) (simp add: deref_def)
next
  case (Cons b bs)
  from Cons.prems have cur: "cur = Some b" "b < length ar" and rest: "path ar (next_m (ar ! b)) (bs @ [c]) q"
    and lt: "element_m (ar ! b) < v" by auto
  have "Locate_loop ar v (Some b) (next_m (ar ! b)) =
      Some (Inr \<lparr>pred_m = (if bs = [] then Some b else Some (last bs)), curr_m = Some c\<rparr>)"
    using Cons.IH[OF rest] Cons.prems by simp
  then show ?case using cur lt by (subst Locate_loop.simps) (simp add: deref_def)
qed

lemma split_at_first_ge:
  fixes f :: "nat \<Rightarrow> 'a::{linorder,order_top}"
  assumes "R \<noteq> []" "f (last R) = top"
  shows "\<exists>bs c cs. R = bs @ c # cs \<and> (\<forall>b\<in>set bs. f b < v) \<and> \<not> f c < v"
proof -
  let ?bs = "takeWhile (\<lambda>a. f a < v) R" and ?rest = "dropWhile (\<lambda>a. f a < v) R"
  have "\<not> f (last R) < v" using assms(2) by simp
  then have "?rest \<noteq> []" using assms(1) last_in_set[OF assms(1)] by (auto simp: dropWhile_eq_Nil_conv)
  then obtain c cs where rest: "?rest = c # cs" by (cases ?rest) auto
  have "R = ?bs @ c # cs" using rest takeWhile_dropWhile_id[of "\<lambda>a. f a < v" R] by simp
  moreover have "\<forall>b\<in>set ?bs. f b < v" by (auto dest: set_takeWhileD)
  moreover have "\<not> f c < v" using hd_dropWhile[of "\<lambda>a. f a < v" R] rest by auto
  ultimately show ?thesis by blast
qed

lemma deref_Some: "a < length ar \<Longrightarrow> deref ar (Some a) = Inr (ar ! a)"
  by (simp add: deref_def)

lemma linked_rep_Locate:
  assumes rep: "linked_rep s h R"
  shows "\<exists>bs c cs. R = bs @ c # cs \<and> (\<forall>b\<in>set bs. element_m (allocator_m s ! b) < v)
           \<and> \<not> element_m (allocator_m s ! c) < v
           \<and> Locate s v = Some (Inr \<lparr>pred_m = Some (last (h # bs)), curr_m = Some c\<rparr>)
           \<and> Edge_Lock (allocator_m s) \<lparr>pred_m = Some (last (h # bs)), curr_m = Some c\<rparr>
               = Some (Inr ())
           \<and> Validate s \<lparr>pred_m = Some (last (h # bs)), curr_m = Some c\<rparr> = Inr True"
proof -
  let ?ar = "allocator_m s"
  let ?f = "\<lambda>a. element_m (?ar ! a)"
  from rep have hd: "head_m s = Some h" and p: "path ?ar (Some h) (h # R) None"
    and ne: "R \<noteq> []" and lst: "last (chain_elements s R) = ElementTraits_Max"
    and um: "unmarked ?ar" and d: "distinct (h # R)"
    by (auto simp: linked_rep_def)
  have "?f (last R) = top" using lst ne by (simp add: chain_elements_def last_map ElementTraits_Max_def)
  from split_at_first_ge[of R ?f v, OF ne this] obtain bs c cs where
    R: "R = bs @ c # cs" and lt: "\<forall>b\<in>set bs. ?f b < v" and ge: "\<not> ?f c < v" by blast
  from p have hlen: "h < length ?ar" and pR: "path ?ar (next_m (?ar ! h)) R None" by auto
  from pR R have "path ?ar (next_m (?ar ! h)) ((bs @ [c]) @ cs) None" by simp
  then obtain r where pbc: "path ?ar (next_m (?ar ! h)) (bs @ [c]) r"
    unfolding path_append by blast
  have loop: "Locate_loop ?ar v (Some h) (next_m (?ar ! h)) =
      Some (Inr \<lparr>pred_m = (if bs = [] then Some h else Some (last bs)), curr_m = Some c\<rparr>)"
    by (rule Locate_loop_path[OF pbc lt ge])
  have loc: "Locate s v = Some (Inr \<lparr>pred_m = Some (last (h # bs)), curr_m = Some c\<rparr>)"
    using loop hd hlen by (simp add: Locate_def deref_Some)
  let ?p = "last (h # bs)"
  have split: "h # R = butlast (h # bs) @ ?p # c # cs"
    using R append_butlast_last_id[of "h # bs"] by (metis append_Cons append_assoc list.distinct(1) append_Nil)
  from p split have "path ?ar (Some h) (butlast (h # bs) @ ?p # c # cs) None" by simp
  then obtain r' where "path ?ar r' (?p # c # cs) None" unfolding path_append by blast
  then have plen: "?p < length ?ar" and nx: "next_m (?ar ! ?p) = Some c" and clen: "c < length ?ar"
    by auto
  have "\<not> marked_m (?ar ! ?p)" "\<not> marked_m (?ar ! c)"
    using um plen clen by (auto simp: unmarked_def)
  then have val: "Validate s \<lparr>pred_m = Some ?p, curr_m = Some c\<rparr> = Inr True"
    using plen clen nx by (simp add: Validate_def deref_Some)
  have "distinct (butlast (h # bs) @ ?p # c # cs)" using d split by simp
  then have "?p \<noteq> c" by auto
  then have "Edge_Lock ?ar \<lparr>pred_m = Some ?p, curr_m = Some c\<rparr> = Some (Inr ())"
    using plen clen by (simp add: Edge_Lock_def deref_Some)
  with R lt ge loc val show ?thesis by blast
qed

lemma path_insert_node:
  assumes p: "path ar hp (pre @ p # c # cs) None" and d: "distinct (pre @ p # c # cs)"
    and nd: "next_m nd = Some c"
  shows "path ((ar @ [nd])[p := ((ar @ [nd]) ! p)\<lparr>next_m := Some (length ar)\<rparr>]) hp
           (pre @ p # length ar # c # cs) None"
proof -
  let ?ar' = "(ar @ [nd])[p := ((ar @ [nd]) ! p)\<lparr>next_m := Some (length ar)\<rparr>]"
  from p obtain r where pre: "path ar hp pre r" and rest: "path ar r (p # c # cs) None"
    unfolding path_append by blast
  from rest have r: "r = Some p" and plen: "p < length ar" and clen: "c < length ar"
    and tl: "path ar (next_m (ar ! c)) cs None" by auto
  from d have pn: "p \<notin> set pre" "p \<notin> set cs" "p \<noteq> c" by auto
  have 1: "path ?ar' hp pre (Some p)"
    using path_grow[OF pre, of "[nd]"] pn r by (simp add: path_update)
  have 2: "path ?ar' (next_m (ar ! c)) cs None"
    using path_grow[OF tl, of "[nd]"] pn by (simp add: path_update)
  have 3: "?ar' ! c = ar ! c" using pn clen by (simp add: nth_append)
  have 4: "?ar' ! length ar = nd" using plen by simp
  have 5: "next_m (?ar' ! p) = Some (length ar)" using plen by simp
  have "path ?ar' (Some p) (p # length ar # c # cs) None"
    using 2 3 4 5 plen clen nd by simp
  with 1 show ?thesis unfolding path_append by blast
qed

lemma path_remove_node:
  assumes p: "path ar hp (pre @ p # c # cs) None" and d: "distinct (pre @ p # c # cs)"
  shows "path (ar[p := (ar ! p)\<lparr>next_m := next_m (ar ! c)\<rparr>]) hp (pre @ p # cs) None"
proof -
  let ?ar' = "ar[p := (ar ! p)\<lparr>next_m := next_m (ar ! c)\<rparr>]"
  from p obtain r where pre: "path ar hp pre r" and rest: "path ar r (p # c # cs) None"
    unfolding path_append by blast
  from rest have r: "r = Some p" and plen: "p < length ar" and clen: "c < length ar"
    and tl: "path ar (next_m (ar ! c)) cs None" by auto
  from d have pn: "p \<notin> set pre" "p \<notin> set cs" "p \<noteq> c" by auto
  have 1: "path ?ar' hp pre (Some p)" using pre pn r by (simp add: path_update)
  have 2: "path ?ar' (next_m (ar ! c)) cs None" using tl pn by (simp add: path_update)
  have "path ?ar' (Some p) (p # cs) None" using 2 plen by simp
  with 1 show ?thesis unfolding path_append by blast
qed

lemma unmarked_store:
  "unmarked ar \<Longrightarrow> unmarked (ar[p := (ar ! p)\<lparr>next_m := q\<rparr>])"
  unfolding unmarked_def
  by (metis in_set_conv_nth length_list_update nth_list_update_eq nth_list_update_neq
      Node.select_convs(3) Node.surjective Node.update_convs(2))

lemma unmarked_New:
  "unmarked ar \<Longrightarrow> \<not> marked_m nd \<Longrightarrow> unmarked (ar @ [nd])"
  by (auto simp: unmarked_def)

lemma elements_store:
  "map (\<lambda>a. element_m (ar[p := (ar ! p)\<lparr>next_m := q\<rparr>] ! a)) as = map (\<lambda>a. element_m (ar ! a)) as"
  by (rule map_cong[OF refl]) (metis Node.select_convs(1) Node.surjective Node.update_convs(2) nth_list_update_eq nth_list_update_neq list_update_beyond linorder_not_less)

lemma located_member:
  fixes f :: "nat \<Rightarrow> 'a::linorder"
  assumes srt: "sorted_wrt (<) (map f (bs @ c # cs))"
    and lt: "\<forall>b\<in>set bs. f b < v" and ge: "\<not> f c < v"
  shows "v \<in> set (map f (bs @ c # cs)) \<longleftrightarrow> f c = v"
proof
  assume "v \<in> set (map f (bs @ c # cs))"
  then consider "v \<in> f ` set bs" | "v = f c" | "v \<in> f ` set cs" by auto
  then show "f c = v"
  proof cases
    case 1 with lt show ?thesis by auto
  next
    case 2 then show ?thesis by simp
  next
    case 3
    from srt have "\<forall>y\<in>set cs. f c < f y" by (auto simp: sorted_wrt_append)
    with 3 ge show ?thesis by auto
  qed
qed auto

lemma Linked_Insert_rep:
  assumes rep: "linked_rep s h R"
  shows "\<exists>s' R'. Linked_Insert s v = Some (Inr (v \<notin> set (chain_elements s R), s'))
           \<and> linked_rep s' h R'
           \<and> (if v \<in> set (chain_elements s R) then s' = s \<and> R' = R
               else set (chain_elements s' R') = insert v (set (chain_elements s R))
                    \<and> length R' = Suc (length R) \<and> elements_m s' = elements_m s + 1)"
proof -
  let ?ar = "allocator_m s"
  let ?f = "\<lambda>a. element_m (?ar ! a)"
  from linked_rep_Locate[OF rep, of v] obtain bs c cs where
    R: "R = bs @ c # cs" and lt: "\<forall>b\<in>set bs. ?f b < v" and ge: "\<not> ?f c < v"
    and loc: "Locate s v = Some (Inr \<lparr>pred_m = Some (last (h # bs)), curr_m = Some c\<rparr>)"
    and lck: "Edge_Lock (allocator_m s) \<lparr>pred_m = Some (last (h # bs)), curr_m = Some c\<rparr>
               = Some (Inr ())"
    and val: "Validate s \<lparr>pred_m = Some (last (h # bs)), curr_m = Some c\<rparr> = Inr True"
    by blast
  let ?p = "last (h # bs)"
  from rep have hd: "head_m s = Some h" and p: "path ?ar (Some h) (h # R) None"
    and d: "distinct (h # R)" and um: "unmarked ?ar"
    and mn: "?f h = ElementTraits_Min"
    and srt: "sorted_wrt (<) (chain_elements s R)"
    and ne: "R \<noteq> []" and lst: "last (chain_elements s R) = ElementTraits_Max"
    by (auto simp: linked_rep_def)
  have bound: "\<And>a. a \<in> set (h # R) \<Longrightarrow> a < length ?ar" using path_bound[OF p] by blast
  have clen: "c < length ?ar" and plen: "?p < length ?ar" using bound R by auto
  have mem: "v \<in> set (chain_elements s R) \<longleftrightarrow> ?f c = v"
    using located_member[of ?f bs c cs v] srt lt ge unfolding chain_elements_def R by blast
  show ?thesis
  proof (cases "?f c = v")
    case True
    have "Linked_Insert s v = Some (Inr (False, s))"
      using loc lck val clen True by (subst Linked_Insert.simps) (simp add: deref_Some)
    with True mem rep show ?thesis by auto
  next
    case False
    define n where "n = length ?ar"
    define nd where "nd = \<lparr>element_m = v, next_m = Some c, marked_m = False\<rparr>"
    define ar2 where "ar2 = (?ar @ [nd])[?p := ((?ar @ [nd]) ! ?p)\<lparr>next_m := Some n\<rparr>]"
    define s' where "s' = s\<lparr>allocator_m := ar2, elements_m := elements_m s + 1\<rparr>"
    define R' where "R' = bs @ n # c # cs"
    have ins: "Linked_Insert s v = Some (Inr (True, s'))"
      using loc lck val clen plen False
      by (subst Linked_Insert.simps)
         (simp add: deref_Some New_def store_next_def s'_def ar2_def nd_def n_def)
    have split: "h # R = butlast (h # bs) @ ?p # c # cs"
      using R append_butlast_last_id[of "h # bs"]
      by (metis append_Cons append_assoc list.distinct(1) append_Nil)
    have split': "h # R' = butlast (h # bs) @ ?p # n # c # cs"
      using append_butlast_last_id[of "h # bs"] unfolding R'_def
      by (metis append_Cons append_assoc list.distinct(1) append_Nil)
    have path': "path ar2 (Some h) (h # R') None"
      unfolding split' ar2_def n_def
      by (rule path_insert_node) (use p d split in \<open>simp_all add: nd_def\<close>)
    have nfresh: "n \<notin> set (h # R)" using bound n_def by blast
    have d': "distinct (h # R')" using d nfresh unfolding R'_def R by auto
    have um': "unmarked ar2" unfolding ar2_def
      by (rule unmarked_store) (simp add: unmarked_New um nd_def)
    have el: "\<And>as. set as \<subseteq> set (h # R) \<Longrightarrow>
        map (\<lambda>a. element_m (ar2 ! a)) as = map ?f as"
    proof -
      fix as assume sub: "set as \<subseteq> set (h # R)"
      have "map (\<lambda>a. element_m (ar2 ! a)) as = map (\<lambda>a. element_m ((?ar @ [nd]) ! a)) as"
        unfolding ar2_def by (rule elements_store)
      also have "\<dots> = map ?f as"
        using sub bound by (intro map_cong[OF refl]) (auto simp: nth_append)
      finally show "map (\<lambda>a. element_m (ar2 ! a)) as = map ?f as" .
    qed
    have eln: "element_m (ar2 ! n) = v"
      using plen unfolding ar2_def n_def nd_def by (simp add: nth_list_update)
    have e1: "map (\<lambda>a. element_m (ar2 ! a)) bs = map ?f bs"
      by (rule el) (auto simp: R)
    have e2: "map (\<lambda>a. element_m (ar2 ! a)) (c # cs) = map ?f (c # cs)"
      by (rule el) (auto simp: R)
    have "chain_elements s' R' = map (\<lambda>a. element_m (ar2 ! a)) bs @ element_m (ar2 ! n)
            # map (\<lambda>a. element_m (ar2 ! a)) (c # cs)"
      by (simp add: chain_elements_def s'_def R'_def)
    then have ce: "chain_elements s' R' = map ?f bs @ v # map ?f (c # cs)"
      unfolding e1 e2 eln .
    have ce0: "chain_elements s R = map ?f bs @ map ?f (c # cs)"
      by (simp add: chain_elements_def R)
    have vc: "v < ?f c" using ge False by auto
    have srt': "sorted_wrt (<) (chain_elements s' R')"
      using srt lt vc unfolding ce ce0 by (auto simp: sorted_wrt_append)
    have lst': "last (chain_elements s' R') = ElementTraits_Max"
      using lst unfolding ce ce0 by simp
    have hd': "element_m (ar2 ! h) = ElementTraits_Min" using el[of "[h]"] mn by simp
    have rep': "linked_rep s' h R'"
      unfolding linked_rep_def using hd path' d' um' hd' srt' lst'
      by (simp add: s'_def R'_def)
    have "set (chain_elements s' R') = insert v (set (chain_elements s R))"
      unfolding ce ce0 by auto
    moreover have "length R' = Suc (length R)" by (simp add: R'_def R)
    moreover have "elements_m s' = elements_m s + 1" by (simp add: s'_def)
    ultimately show ?thesis using ins rep' mem False by auto
  qed
qed

lemma Linked_Contains_rep:
  assumes rep: "linked_rep s h R"
  shows "Linked_Contains s v = Some (Inr (v \<in> set (chain_elements s R)))"
proof -
  let ?ar = "allocator_m s"
  let ?f = "\<lambda>a. element_m (?ar ! a)"
  from linked_rep_Locate[OF rep, of v] obtain bs c cs where
    R: "R = bs @ c # cs" and lt: "\<forall>b\<in>set bs. ?f b < v" and ge: "\<not> ?f c < v"
    and loc: "Locate s v = Some (Inr \<lparr>pred_m = Some (last (h # bs)), curr_m = Some c\<rparr>)"
    by blast
  from rep have p: "path ?ar (Some h) (h # R) None" and um: "unmarked ?ar"
    and srt: "sorted_wrt (<) (chain_elements s R)"
    by (auto simp: linked_rep_def)
  have clen: "c < length ?ar" using path_bound[OF p, of c] R by simp
  then have "\<not> marked_m (?ar ! c)" using um by (simp add: unmarked_def)
  moreover have "v \<in> set (chain_elements s R) \<longleftrightarrow> ?f c = v"
    using located_member[of ?f bs c cs v] srt lt ge unfolding chain_elements_def R by blast
  ultimately show ?thesis using loc clen by (simp add: Linked_Contains_def deref_Some)
qed

lemma Linked_Remove_rep:
  assumes rep: "linked_rep s h R"
  shows "\<exists>s'. Linked_Remove s v = Some (Inr (v \<in> set (chain_elements s R), s'))
           \<and> (v \<notin> set (chain_elements s R) \<longrightarrow> s' = s)
           \<and> (v \<in> set (chain_elements s R) \<longrightarrow> elements_m s' = elements_m s - 1)
           \<and> (v \<in> set (chain_elements s R) \<and> v \<noteq> ElementTraits_Max \<longrightarrow>
                (\<exists>R'. linked_rep s' h R'
                   \<and> set (chain_elements s' R') = set (chain_elements s R) - {v}
                   \<and> Suc (length R') = length R))"
proof -
  let ?ar = "allocator_m s"
  let ?f = "\<lambda>a. element_m (?ar ! a)"
  from linked_rep_Locate[OF rep, of v] obtain bs c cs where
    R: "R = bs @ c # cs" and lt: "\<forall>b\<in>set bs. ?f b < v" and ge: "\<not> ?f c < v"
    and loc: "Locate s v = Some (Inr \<lparr>pred_m = Some (last (h # bs)), curr_m = Some c\<rparr>)"
    and lck: "Edge_Lock (allocator_m s) \<lparr>pred_m = Some (last (h # bs)), curr_m = Some c\<rparr>
               = Some (Inr ())"
    and val: "Validate s \<lparr>pred_m = Some (last (h # bs)), curr_m = Some c\<rparr> = Inr True"
    by blast
  let ?p = "last (h # bs)"
  from rep have hd: "head_m s = Some h" and p: "path ?ar (Some h) (h # R) None"
    and d: "distinct (h # R)" and um: "unmarked ?ar"
    and mn: "?f h = ElementTraits_Min"
    and srt: "sorted_wrt (<) (chain_elements s R)"
    and ne: "R \<noteq> []" and lst: "last (chain_elements s R) = ElementTraits_Max"
    by (auto simp: linked_rep_def)
  have bound: "\<And>a. a \<in> set (h # R) \<Longrightarrow> a < length ?ar" using path_bound[OF p] by blast
  have clen: "c < length ?ar" and plen: "?p < length ?ar" using bound R by auto
  have mem: "v \<in> set (chain_elements s R) \<longleftrightarrow> ?f c = v"
    using located_member[of ?f bs c cs v] srt lt ge unfolding chain_elements_def R by blast
  show ?thesis
  proof (cases "?f c = v")
    case False
    have "Linked_Remove s v = Some (Inr (False, s))"
      using loc lck val clen False by (subst Linked_Remove.simps) (simp add: deref_Some)
    with False mem show ?thesis by auto
  next
    case True
    define ar1 where "ar1 = ?ar[?p := (?ar ! ?p)\<lparr>next_m := next_m (?ar ! c)\<rparr>]"
    define s' where "s' = s\<lparr>allocator_m := ar1, elements_m := elements_m s - 1\<rparr>"
    have rem: "Linked_Remove s v = Some (Inr (True, s'))"
      using loc lck val clen plen True
      by (subst Linked_Remove.simps) (simp add: deref_Some store_next_def s'_def ar1_def)
    have cnt: "elements_m s' = elements_m s - 1" by (simp add: s'_def)
    have "\<exists>R'. linked_rep s' h R'
                   \<and> set (chain_elements s' R') = set (chain_elements s R) - {v}
                   \<and> Suc (length R') = length R" if vmax: "v \<noteq> ElementTraits_Max"
    proof -
      define R' where "R' = bs @ cs"
      have csne: "cs \<noteq> []"
      proof
        assume "cs = []"
        then have "last (chain_elements s R) = ?f c" by (simp add: chain_elements_def R)
        with lst True vmax show False by simp
      qed
      have split: "h # R = butlast (h # bs) @ ?p # c # cs"
        using R append_butlast_last_id[of "h # bs"]
        by (metis append_Cons append_assoc list.distinct(1) append_Nil)
      have split': "h # R' = butlast (h # bs) @ ?p # cs"
        using append_butlast_last_id[of "h # bs"] unfolding R'_def
        by (metis append_Cons append_assoc list.distinct(1) append_Nil)
      have path': "path ar1 (Some h) (h # R') None"
        unfolding split' ar1_def
        by (rule path_remove_node) (use p d split in simp_all)
      have d': "distinct (h # R')" using d unfolding R'_def R by auto
      have um': "unmarked ar1" unfolding ar1_def by (rule unmarked_store[OF um])
      have el: "\<And>as. map (\<lambda>a. element_m (ar1 ! a)) as = map ?f as"
        unfolding ar1_def by (rule elements_store)
      have ce: "chain_elements s' R' = map ?f bs @ map ?f cs"
        using el[of R'] by (simp add: chain_elements_def s'_def R'_def)
      have ce0: "chain_elements s R = map ?f bs @ ?f c # map ?f cs"
        by (simp add: chain_elements_def R)
      have srt': "sorted_wrt (<) (chain_elements s' R')"
        using srt unfolding ce ce0 by (auto simp: sorted_wrt_append)
      have lst': "last (chain_elements s' R') = ElementTraits_Max"
        using lst csne unfolding ce ce0 by simp
      have hd': "element_m (ar1 ! h) = ElementTraits_Min" using el[of "[h]"] mn by simp
      have rep': "linked_rep s' h R'"
        unfolding linked_rep_def using hd path' d' um' hd' srt' lst' csne
        by (simp add: s'_def R'_def)
      have "\<forall>y\<in>set cs. ?f c < ?f y" using srt unfolding ce0 by (auto simp: sorted_wrt_append)
      then have "set (chain_elements s' R') = set (chain_elements s R) - {v}"
        using lt True unfolding ce ce0 by auto
      moreover have "Suc (length R') = length R" by (simp add: R'_def R)
      ultimately show ?thesis using rep' by blast
    qed
    with rem cnt True mem show ?thesis by auto
  qed
qed

lemma Linked_Insert_unmarked_aux:
  assumes "Linked_Insert s v = Some r"
  shows "unmarked (allocator_m s) \<longrightarrow> (\<forall>b s'. r = Inr (b, s') \<longrightarrow> unmarked (allocator_m s'))"
  using assms
  by (rule Linked_Insert.raw_induct[rotated 1, where
        P = "\<lambda>s v r. unmarked (allocator_m s) \<longrightarrow> (\<forall>b s'. r = Inr (b, s') \<longrightarrow> unmarked (allocator_m s'))"])
     (auto split: option.splits sum.splits if_splits prod.splits
        simp: New_def store_next_def Edge_Lock_def intro!: unmarked_store unmarked_New)

lemma Linked_Remove_unmarked_aux:
  assumes "Linked_Remove s v = Some r"
  shows "unmarked (allocator_m s) \<longrightarrow> (\<forall>b s'. r = Inr (b, s') \<longrightarrow> unmarked (allocator_m s'))"
  using assms
  by (rule Linked_Remove.raw_induct[rotated 1, where
        P = "\<lambda>s v r. unmarked (allocator_m s) \<longrightarrow> (\<forall>b s'. r = Inr (b, s') \<longrightarrow> unmarked (allocator_m s'))"])
     (auto split: option.splits sum.splits if_splits prod.splits
        simp: New_def store_next_def Edge_Lock_def intro!: unmarked_store unmarked_New)

lemma Linked_call_unmarked:
  "Linked_call s c = Some (Inr (r, s')) \<Longrightarrow> unmarked (allocator_m s) \<Longrightarrow> unmarked (allocator_m s')"
  by (cases c)
     (auto split: option.splits sum.splits prod.splits
        dest: Linked_Insert_unmarked_aux Linked_Remove_unmarked_aux)

lemma Linked_run_unmarked:
  "Linked_run s cs = Some (Inr (rs, s')) \<Longrightarrow> unmarked (allocator_m s) \<Longrightarrow> unmarked (allocator_m s')"
proof (induction cs arbitrary: s rs)
  case Nil
  then show ?case by simp
next
  case (Cons c cs)
  then show ?case
    by (auto split: option.splits sum.splits prod.splits dest: Linked_call_unmarked)
qed

lemma unmarked_new: "unmarked ar \<Longrightarrow> unmarked (allocator_m (OptimisticLinkedSet_new ar :: 'a::{order_top,order_bot} OptimisticLinkedSet))"
  by (auto simp: OptimisticLinkedSet_new_def CreateEmptyList_def New_def unmarked_def
      dest!: set_update_subset_insert[THEN subsetD])

lemma Validate_unmarked:
  "unmarked (allocator_m s) \<Longrightarrow> deref (allocator_m s) (pred_m edge) = Inr p \<Longrightarrow>
   deref (allocator_m s) (curr_m edge) = Inr c \<Longrightarrow> Validate s edge = Inr (next_m p = curr_m edge)"
  by (auto simp: Validate_def deref_def unmarked_def split: option.splits if_splits)

lemma Contains_unmarked:
  "unmarked (allocator_m s) \<Longrightarrow> Locate s v = Some (Inr edge) \<Longrightarrow>
   deref (allocator_m s) (curr_m edge) = Inr c \<Longrightarrow> Linked_Contains s v = Some (Inr (element_m c = v))"
  by (auto simp: Linked_Contains_def deref_def unmarked_def split: option.splits if_splits)


section \<open>The striped set: table reasoning\<close>

lemma mset_concat_update:
  "i < length t \<Longrightarrow> mset (concat (t[i := ys])) + mset (t ! i) = mset (concat t) + mset ys"
proof (induction t arbitrary: i)
  case Nil
  then show ?case by simp
next
  case (Cons b t)
  show ?case
  proof (cases i)
    case 0
    then show ?thesis by simp
  next
    case (Suc j)
    with Cons.prems have "j < length t" by simp
    from Cons.IH[OF this] Suc show ?thesis by (simp add: ac_simps)
  qed
qed

lemma mset_concat_push:
  "i < length t \<Longrightarrow> mset (concat (t[i := x # t ! i])) = add_mset x (mset (concat t))"
  using mset_concat_update[of i t "x # t ! i"] by simp

lemma well_placed_push:
  "well_placed hash t \<Longrightarrow> 0 < length t \<Longrightarrow>
   well_placed hash (t[hash x mod length t := x # t ! (hash x mod length t)])"
  unfolding well_placed_def
  by (auto simp: nth_list_update)

lemma well_placed_member:
  assumes "well_placed hash t" "0 < length t"
  shows "x \<in> set (concat t) \<longleftrightarrow> x \<in> set (t ! (hash x mod length t))"
proof
  assume "x \<in> set (concat t)"
  then obtain b where "b \<in> set t" "x \<in> set b" by auto
  then obtain i where "i < length t" "t ! i = b" by (auto simp: in_set_conv_nth)
  with assms \<open>x \<in> set b\<close> have "hash x mod length t = i" by (auto simp: well_placed_def)
  with \<open>t ! i = b\<close> \<open>x \<in> set b\<close> show "x \<in> set (t ! (hash x mod length t))" by simp
next
  assume "x \<in> set (t ! (hash x mod length t))"
  moreover have "t ! (hash x mod length t) \<in> set t" using assms(2) by simp
  ultimately show "x \<in> set (concat t)" by auto
qed

lemma well_placed_replicate: "well_placed hash (replicate n [])"
  by (simp add: well_placed_def)

lemma Rehash_bucket_ok:
  assumes "0 < n"
  shows "length temp = n \<Longrightarrow>
    \<exists>t'. Rehash_bucket hash n temp b = Inr t' \<and> length t' = n
        \<and> mset (concat t') = mset b + mset (concat temp)
        \<and> (well_placed hash temp \<longrightarrow> well_placed hash t')"
proof (induction b arbitrary: temp)
  case Nil
  then show ?case by simp
next
  case (Cons x b)
  let ?i = "hash x mod n"
  let ?t1 = "temp[?i := x # temp ! ?i]"
  have len: "length ?t1 = n" using Cons.prems by simp
  from Cons.IH[OF len] obtain t' where
    r: "Rehash_bucket hash n ?t1 b = Inr t'" and l: "length t' = n"
    and m: "mset (concat t') = mset b + mset (concat ?t1)"
    and w: "well_placed hash ?t1 \<longrightarrow> well_placed hash t'" by blast
  have i: "?i < length temp" using assms Cons.prems by simp
  have m1: "mset (concat ?t1) = add_mset x (mset (concat temp))"
    by (rule mset_concat_push[OF i])
  have w1: "well_placed hash temp \<longrightarrow> well_placed hash ?t1"
    using well_placed_push[of hash temp x] assms Cons.prems by auto
  show ?case using r l m m1 w w1 assms by (auto simp: Let_def)
qed

lemma Rehash_table_ok:
  assumes "0 < n"
  shows "length temp = n \<Longrightarrow>
    \<exists>t'. Rehash_table hash n temp bs = Inr t' \<and> length t' = n
        \<and> mset (concat t') = mset (concat bs) + mset (concat temp)
        \<and> (well_placed hash temp \<longrightarrow> well_placed hash t')"
proof (induction bs arbitrary: temp)
  case Nil
  then show ?case by simp
next
  case (Cons b bs)
  from Rehash_bucket_ok[OF assms Cons.prems, of hash b] obtain t1 where
    r1: "Rehash_bucket hash n temp b = Inr t1" and l1: "length t1 = n"
    and m1: "mset (concat t1) = mset b + mset (concat temp)"
    and w1: "well_placed hash temp \<longrightarrow> well_placed hash t1" by blast
  from Cons.IH[OF l1] obtain t' where
    r: "Rehash_table hash n t1 bs = Inr t'" and l: "length t' = n"
    and m: "mset (concat t') = mset (concat bs) + mset (concat t1)"
    and w: "well_placed hash t1 \<longrightarrow> well_placed hash t'" by blast
  show ?case using r1 r l m m1 w w1 by (auto simp: ac_simps)
qed

lemma Rehash_inv:
  assumes inv: "striped_inv hash s" and gf: "0 < growth_factor_m s"
    and nowrap: "length (hash_table_m s) * growth_factor_m s < 2 ^ 64"
  shows "\<exists>s'. Rehash hash s = Inr s'
     \<and> (unat (num_elements_m s) div length (hash_table_m s) \<le> max_load_factor_m s \<longrightarrow> s' = s)
     \<and> (unat (num_elements_m s) div length (hash_table_m s) > max_load_factor_m s \<longrightarrow>
          s' = s\<lparr>hash_table_m := hash_table_m s'\<rparr> \<and>
          length (hash_table_m s') = length (hash_table_m s) * growth_factor_m s)
     \<and> striped_contents s' = striped_contents s
     \<and> striped_inv hash s'"
proof (cases "unat (num_elements_m s) div length (hash_table_m s) \<le> max_load_factor_m s")
  case True
  then have "Rehash hash s = Inr s"
    using inv by (simp add: Rehash_def GetLoadFactor_def striped_inv_def)
  with True inv show ?thesis by simp
next
  case False
  let ?n = "length (hash_table_m s) * growth_factor_m s"
  have n: "0 < ?n" using inv gf by (simp add: striped_inv_def)
  have wrap: "?n mod 2 ^ 64 = ?n" using nowrap by simp
  from Rehash_table_ok[OF n, of "replicate ?n []" hash "hash_table_m s"] obtain t' where
    r: "Rehash_table hash ?n (replicate ?n []) (hash_table_m s) = Inr t'" and l: "length t' = ?n"
    and m: "mset (concat t') = mset (concat (hash_table_m s))"
    and w: "well_placed hash t'"
    by (auto simp: well_placed_replicate)
  let ?s' = "s\<lparr>hash_table_m := t'\<rparr>"
  have reh: "Rehash hash s = Inr ?s'"
    using False inv r wrap by (simp add: Rehash_def GetLoadFactor_def striped_inv_def Let_def)
  have d: "distinct (concat t')"
    using inv mset_eq_imp_distinct_iff[OF m] by (simp add: striped_inv_def)
  have len: "length (concat t') = length (concat (hash_table_m s))"
    using m by (metis size_mset)
  have "striped_inv hash ?s'"
    using inv n l w d len by (simp add: striped_inv_def)
  with reh False l m show ?thesis by (auto simp: striped_contents_def)
qed

lemma Striped_Contains_inv:
  assumes inv: "striped_inv hash s"
  shows "Striped_Contains hash s v = Inr (v \<in># striped_contents s)"
  using inv well_placed_member[of hash "hash_table_m s" v]
  by (simp add: Striped_Contains_def GetStripeIndex_def GetBucketIndex_def striped_inv_def
      striped_contents_def)

lemma Striped_Insert_present:
  assumes inv: "striped_inv hash s" and mem: "v \<in># striped_contents s"
  shows "Striped_Insert hash s v = Some (Inr (False, s))"
  using inv mem well_placed_member[of hash "hash_table_m s" v]
  by (subst Striped_Insert.simps)
     (simp add: GetStripeIndex_def GetBucketIndex_def striped_inv_def striped_contents_def)

lemma Striped_Insert_direct:
  assumes inv: "striped_inv hash s" and mem: "v \<notin># striped_contents s"
    and load: "unat (num_elements_m s) div length (hash_table_m s) \<le> max_load_factor_m s"
  defines "i \<equiv> hash v mod length (hash_table_m s)"
  defines "s' \<equiv> s\<lparr>hash_table_m := (hash_table_m s)[i := v # hash_table_m s ! i],
                   num_elements_m := num_elements_m s + 1\<rparr>"
  shows "Striped_Insert hash s v = Some (Inr (True, s'))"
    and "striped_inv hash s'"
    and "striped_contents s' = add_mset v (striped_contents s)"
proof -
  let ?t = "hash_table_m s"
  from inv have cap: "0 < length ?t" and st: "0 < num_stripes_m s"
    and w: "well_placed hash ?t" and d: "distinct (concat ?t)"
    and cnt: "num_elements_m s = of_nat (length (concat ?t))"
    by (auto simp: striped_inv_def)
  have i: "i < length ?t" using cap by (simp add: i_def)
  have nm: "v \<notin> set (?t ! i)"
    using mem well_placed_member[OF w cap, of v] by (simp add: striped_contents_def i_def)
  show "Striped_Insert hash s v = Some (Inr (True, s'))"
    using cap st nm load
    by (subst Striped_Insert.simps)
       (simp add: GetStripeIndex_def GetBucketIndex_def GetLoadFactor_def s'_def i_def)
  have m: "mset (concat (hash_table_m s')) = add_mset v (mset (concat ?t))"
    using mset_concat_push[OF i, of v] by (simp add: s'_def)
  then show "striped_contents s' = add_mset v (striped_contents s)"
    by (simp add: striped_contents_def)
  have "mset (concat (hash_table_m s')) = mset (v # concat ?t)" using m by simp
  from mset_eq_imp_distinct_iff[OF this] have d': "distinct (concat (hash_table_m s'))"
    using d mem by (simp add: striped_contents_def)
  have len: "length (concat (hash_table_m s')) = Suc (length (concat ?t))"
    using m by (metis size_mset size_add_mset)
  have w': "well_placed hash (hash_table_m s')"
    using well_placed_push[OF w cap, of v] by (simp add: s'_def i_def)
  show "striped_inv hash s'"
    unfolding striped_inv_def using st cap w' d' len cnt
    by (simp add: s'_def)
qed

lemma Striped_Insert_total:
  assumes gf: "2 \<le> growth_factor_m s" and inv: "striped_inv hash s"
    and mem: "v \<notin># striped_contents s"
    and nowrap: "unat (num_elements_m s) * growth_factor_m s < 2 ^ 64"
  shows "\<exists>s'. Striped_Insert hash s v = Some (Inr (True, s'))
      \<and> striped_inv hash s'
      \<and> striped_contents s' = add_mset v (striped_contents s)
      \<and> num_elements_m s' = num_elements_m s + 1
      \<and> (\<exists>rest. hash_table_m s' ! (hash v mod length (hash_table_m s')) = v # rest)
      \<and> (\<exists>k. length (hash_table_m s') = length (hash_table_m s) * growth_factor_m s ^ k)
      \<and> growth_factor_m s' = growth_factor_m s \<and> max_load_factor_m s' = max_load_factor_m s
      \<and> num_stripes_m s' = num_stripes_m s"
  using gf inv mem nowrap
proof (induction "unat (num_elements_m s) div length (hash_table_m s)" arbitrary: s rule: less_induct)
  case less
  let ?t = "hash_table_m s"
  let ?load = "unat (num_elements_m s) div length ?t"
  from less.prems have cap: "0 < length ?t" and st: "0 < num_stripes_m s"
    by (auto simp: striped_inv_def)
  show ?case
  proof (cases "?load \<le> max_load_factor_m s")
    case True
    let ?i = "hash v mod length ?t"
    let ?s' = "s\<lparr>hash_table_m := ?t[?i := v # ?t ! ?i], num_elements_m := num_elements_m s + 1\<rparr>"
    from Striped_Insert_direct[OF less.prems(2) less.prems(3) True]
    have "Striped_Insert hash s v = Some (Inr (True, ?s'))" "striped_inv hash ?s'"
      "striped_contents ?s' = add_mset v (striped_contents s)" by auto
    moreover have "hash_table_m ?s' ! (hash v mod length (hash_table_m ?s')) = v # ?t ! ?i"
      using cap by simp
    moreover have "length (hash_table_m ?s') = length ?t * growth_factor_m s ^ 0" by simp
    ultimately show ?thesis by (intro exI[of _ ?s']) (auto simp del: power_0 One_nat_def)
  next
    case False
    have "length ?t \<le> unat (num_elements_m s)"
    proof (rule ccontr)
      assume "\<not> length ?t \<le> unat (num_elements_m s)"
      then have "?load = 0" by simp
      with False show False by simp
    qed
    then have "length ?t * growth_factor_m s \<le> unat (num_elements_m s) * growth_factor_m s"
      by (rule mult_le_mono1)
    then have nw: "length ?t * growth_factor_m s < 2 ^ 64"
      using less.prems(4) by (rule le_less_trans)
    have gf0: "0 < growth_factor_m s" using less.prems(1) by simp
    from Rehash_inv[OF less.prems(2) gf0 nw] False obtain s1 where
      reh: "Rehash hash s = Inr s1" and s1: "s1 = s\<lparr>hash_table_m := hash_table_m s1\<rparr>"
      and len1: "length (hash_table_m s1) = length ?t * growth_factor_m s"
      and c1: "striped_contents s1 = striped_contents s" and inv1: "striped_inv hash s1"
      by (auto simp: not_le)
    have fields: "num_elements_m s1 = num_elements_m s" "growth_factor_m s1 = growth_factor_m s"
      "max_load_factor_m s1 = max_load_factor_m s" "num_stripes_m s1 = num_stripes_m s"
      by (subst s1, simp)+
    have step: "Striped_Insert hash s v = Striped_Insert hash s1 v"
    proof -
      have "v \<notin> set (?t ! (hash v mod length ?t))"
        using less.prems well_placed_member[of hash ?t v]
        by (simp add: striped_inv_def striped_contents_def)
      then show ?thesis using cap st False reh
        by (subst Striped_Insert.simps)
           (simp add: GetStripeIndex_def GetBucketIndex_def GetLoadFactor_def not_le)
    qed
    have pos: "0 < ?load" using False by simp
    have "unat (num_elements_m s1) div length (hash_table_m s1) = ?load div growth_factor_m s"
      by (simp add: fields len1 div_mult2_eq)
    also have "\<dots> < ?load"
      using pos less.prems(1) by (intro div_less_dividend) auto
    finally have dec: "unat (num_elements_m s1) div length (hash_table_m s1) < ?load" .
    from less.hyps[OF dec _ inv1] less.prems(1) less.prems(3) less.prems(4) c1 fields obtain s' where
      ins: "Striped_Insert hash s1 v = Some (Inr (True, s'))" and inv': "striped_inv hash s'"
      and c': "striped_contents s' = add_mset v (striped_contents s1)"
      and n': "num_elements_m s' = num_elements_m s1 + 1"
      and hd': "\<exists>rest. hash_table_m s' ! (hash v mod length (hash_table_m s')) = v # rest"
      and k': "\<exists>k. length (hash_table_m s') = length (hash_table_m s1) * growth_factor_m s1 ^ k"
      and f': "growth_factor_m s' = growth_factor_m s1" "max_load_factor_m s' = max_load_factor_m s1"
        "num_stripes_m s' = num_stripes_m s1"
      by auto
    from k' obtain k where "length (hash_table_m s') = length (hash_table_m s1) * growth_factor_m s1 ^ k"
      by blast
    then have "length (hash_table_m s') = length ?t * growth_factor_m s ^ Suc k"
      by (simp add: len1 fields)
    then have k: "\<exists>k. length (hash_table_m s') = length ?t * growth_factor_m s ^ k" by blast
    show ?thesis
      using step ins inv' c' c1 n' hd' k f' fields by auto
  qed
qed

lemma Striped_Remove_inv:
  assumes inv: "striped_inv hash s"
  shows "\<exists>s'. Striped_Remove hash s v = Inr (v \<in># striped_contents s, s')
      \<and> striped_inv hash s'
      \<and> striped_contents s' = striped_contents s - {#v#}
      \<and> (v \<notin># striped_contents s \<longrightarrow> s' = s)
      \<and> (v \<in># striped_contents s \<longrightarrow> num_elements_m s' = num_elements_m s - 1)
      \<and> growth_factor_m s' = growth_factor_m s \<and> max_load_factor_m s' = max_load_factor_m s
      \<and> num_stripes_m s' = num_stripes_m s \<and> length (hash_table_m s') = length (hash_table_m s)"
proof -
  let ?t = "hash_table_m s"
  let ?i = "hash v mod length ?t"
  from inv have cap: "0 < length ?t" and st: "0 < num_stripes_m s"
    and w: "well_placed hash ?t" and d: "distinct (concat ?t)"
    and cnt: "num_elements_m s = of_nat (length (concat ?t))"
    by (auto simp: striped_inv_def)
  have i: "?i < length ?t" using cap by simp
  have memi: "v \<in># striped_contents s \<longleftrightarrow> v \<in> set (?t ! ?i)"
    using well_placed_member[OF w cap, of v] by (simp add: striped_contents_def)
  show ?thesis
  proof (cases "v \<in> set (?t ! ?i)")
    case False
    then have "Striped_Remove hash s v = Inr (False, s)"
      using cap st by (simp add: Striped_Remove_def GetStripeIndex_def GetBucketIndex_def)
    with False memi inv show ?thesis by auto
  next
    case True
    let ?b = "removeAll v (?t ! ?i)"
    let ?s' = "s\<lparr>hash_table_m := ?t[?i := ?b], num_elements_m := num_elements_m s - 1\<rparr>"
    have rem: "Striped_Remove hash s v = Inr (True, ?s')"
      using True cap st by (simp add: Striped_Remove_def GetStripeIndex_def GetBucketIndex_def)
    have "?t ! ?i \<in> set ?t" using i by simp
    then have db: "distinct (?t ! ?i)" using d by (simp add: distinct_concat_iff)
    have "mset (?t ! ?i) = add_mset v (mset ?b)"
      using db True by (simp add: distinct_remove1_removeAll[symmetric])
    with mset_concat_update[OF i, of ?b]
    have m: "mset (concat ?t) = add_mset v (mset (concat (?t[?i := ?b])))" by simp
    then have c': "striped_contents ?s' = striped_contents s - {#v#}"
      by (simp add: striped_contents_def)
    have "mset (concat ?t) = mset (v # concat (?t[?i := ?b]))" using m by simp
    from mset_eq_imp_distinct_iff[OF this] d have d': "distinct (concat (?t[?i := ?b]))" by simp
    have len: "length (concat ?t) = Suc (length (concat (?t[?i := ?b])))"
      using m by (metis size_mset size_add_mset)
    have w': "well_placed hash (?t[?i := ?b])"
      unfolding well_placed_def
    proof (intro allI impI ballI)
      fix j x assume j: "j < length (?t[?i := ?b])" and x: "x \<in> set (?t[?i := ?b] ! j)"
      have "x \<in> set (?t ! j)"
        using x j by (cases "j = ?i") (auto simp: nth_list_update)
      then show "hash x mod length (?t[?i := ?b]) = j"
        using w j by (simp add: well_placed_def)
    qed
    have cnt': "num_elements_m ?s' = of_nat (length (concat (hash_table_m ?s')))"
      using cnt len by simp
    have "striped_inv hash ?s'"
      unfolding striped_inv_def using st cap w' d' cnt' by simp
    with rem True memi c' show ?thesis by auto
  qed
qed





section \<open>Fresh sets and the simulation\<close>

lemma linked_rep_new:
  "linked_rep (OptimisticLinkedSet_new [] :: 'a::{linorder,order_top,order_bot} OptimisticLinkedSet) 0 [1]"
  by (simp add: linked_rep_def OptimisticLinkedSet_new_def CreateEmptyList_def New_def
      unmarked_def chain_elements_def)

lemma chain_elements_new:
  "chain_elements (OptimisticLinkedSet_new [] :: 'a::{linorder,order_top,order_bot} OptimisticLinkedSet) [1]
     = [ElementTraits_Max]"
  by (simp add: OptimisticLinkedSet_new_def CreateEmptyList_def New_def chain_elements_def)

lemma striped_inv_new:
  "0 < k \<Longrightarrow> striped_inv hash (StripedHashSet_new k g lf)"
  by (simp add: striped_inv_def StripedHashSet_new_def well_placed_replicate)

lemma striped_contents_new: "striped_contents (StripedHashSet_new k g lf) = {#}"
  by (simp add: striped_contents_def StripedHashSet_new_def)

lemma same_contents_new:
  assumes k: "0 < k" and g: "2 \<le> g"
  shows "same_contents hash (StripedHashSet_new k g lf) (OptimisticLinkedSet_new [])"
proof -
  let ?sL = "OptimisticLinkedSet_new [] :: 'a OptimisticLinkedSet"
  let ?sS = "StripedHashSet_new k g lf :: 'a StripedHashSet"
  have "linked_rep ?sL 0 [1] \<and> set (chain_elements ?sL [1]) =
      insert ElementTraits_Max (set_mset (striped_contents ?sS))"
    using linked_rep_new[where 'a = 'a] chain_elements_new[where 'a = 'a]
    by (simp add: striped_contents_new)
  then have "\<exists>h R. linked_rep ?sL h R \<and> set (chain_elements ?sL R) =
      insert ElementTraits_Max (set_mset (striped_contents ?sS))"
    by blast
  moreover have "growth_factor_m ?sS = g" "num_elements_m ?sS = 0" "elements_m ?sL = 0"
    by (simp_all add: StripedHashSet_new_def OptimisticLinkedSet_new_def CreateEmptyList_def New_def)
  ultimately show ?thesis
    unfolding same_contents_def using k g
    by (simp add: striped_inv_new striped_contents_new)
qed

lemma same_contents_call:
  assumes rel: "same_contents hash sS sL" and arg: "ElementTraits_Max \<notin> set_operation c"
    and nowrap: "unat (num_elements_m sS) * growth_factor_m sS < 2 ^ 64"
  shows "\<exists>r sS' sL'. Striped_call hash sS c = Some (Inr (r, sS'))
           \<and> Linked_call sL c = Some (Inr (r, sL')) \<and> same_contents hash sS' sL'
           \<and> growth_factor_m sS' = growth_factor_m sS
           \<and> size (striped_contents sS') \<le> Suc (size (striped_contents sS))"
proof -
  from rel obtain h R where inv: "striped_inv hash sS" and gf: "2 \<le> growth_factor_m sS"
    and rep: "linked_rep sL h R"
    and els: "set (chain_elements sL R) = insert ElementTraits_Max (set_mset (striped_contents sS))"
    and nomax: "ElementTraits_Max \<notin># striped_contents sS"
    and cnt: "num_elements_m sS = elements_m sL"
    by (auto simp: same_contents_def)
  show ?thesis
  proof (cases c)
    case (Insert v)
    with arg have v: "v \<noteq> ElementTraits_Max" by auto
    then have iff: "v \<in> set (chain_elements sL R) \<longleftrightarrow> v \<in># striped_contents sS"
      using els by auto
    from Linked_Insert_rep[OF rep, of v] obtain sL' R' where
      li: "Linked_Insert sL v = Some (Inr (v \<notin> set (chain_elements sL R), sL'))"
      and rep': "linked_rep sL' h R'"
      and eff: "if v \<in> set (chain_elements sL R) then sL' = sL \<and> R' = R
               else set (chain_elements sL' R') = insert v (set (chain_elements sL R))
                    \<and> length R' = Suc (length R) \<and> elements_m sL' = elements_m sL + 1"
      by blast
    show ?thesis
    proof (cases "v \<in># striped_contents sS")
      case True
      have "Striped_Insert hash sS v = Some (Inr (False, sS))"
        by (rule Striped_Insert_present[OF inv True])
      moreover have "Linked_Insert sL v = Some (Inr (False, sL))"
        using li eff iff True by simp
      ultimately show ?thesis using Insert rel by auto
    next
      case False
      from Striped_Insert_total[OF gf inv False nowrap] obtain sS' where
        si: "Striped_Insert hash sS v = Some (Inr (True, sS'))" and inv': "striped_inv hash sS'"
        and c': "striped_contents sS' = add_mset v (striped_contents sS)"
        and n': "num_elements_m sS' = num_elements_m sS + 1"
        and g': "growth_factor_m sS' = growth_factor_m sS" by blast
      have l1: "Linked_Insert sL v = Some (Inr (True, sL'))" using li iff False by simp
      have l2: "set (chain_elements sL' R') = insert v (set (chain_elements sL R))"
        and l3: "elements_m sL' = elements_m sL + 1" using eff iff False by auto
      have "same_contents hash sS' sL'"
        unfolding same_contents_def
        using inv' gf g' rep' l2 l3 els c' n' cnt nomax v by auto
      with si l1 Insert g' c' show ?thesis by auto
    qed
  next
    case (Remove v)
    with arg have v: "v \<noteq> ElementTraits_Max" by auto
    then have iff: "v \<in> set (chain_elements sL R) \<longleftrightarrow> v \<in># striped_contents sS"
      using els by auto
    from Striped_Remove_inv[OF inv, of v] obtain sS' where
      sr: "Striped_Remove hash sS v = Inr (v \<in># striped_contents sS, sS')"
      and inv': "striped_inv hash sS'"
      and c': "striped_contents sS' = striped_contents sS - {#v#}"
      and same: "v \<notin># striped_contents sS \<longrightarrow> sS' = sS"
      and n': "v \<in># striped_contents sS \<longrightarrow> num_elements_m sS' = num_elements_m sS - 1"
      and g': "growth_factor_m sS' = growth_factor_m sS" by blast
    from Linked_Remove_rep[OF rep, of v] obtain sL' where
      lr: "Linked_Remove sL v = Some (Inr (v \<in> set (chain_elements sL R), sL'))"
      and lsame: "v \<notin> set (chain_elements sL R) \<longrightarrow> sL' = sL"
      and ln: "v \<in> set (chain_elements sL R) \<longrightarrow> elements_m sL' = elements_m sL - 1"
      and lrep: "v \<in> set (chain_elements sL R) \<and> v \<noteq> ElementTraits_Max \<longrightarrow>
                (\<exists>R'. linked_rep sL' h R'
                   \<and> set (chain_elements sL' R') = set (chain_elements sL R) - {v}
                   \<and> Suc (length R') = length R)"
      by blast
    show ?thesis
    proof (cases "v \<in># striped_contents sS")
      case False
      then show ?thesis using sr lr same lsame iff rel Remove by auto
    next
      case True
      from lrep True iff v obtain R' where rep': "linked_rep sL' h R'"
        and l2: "set (chain_elements sL' R') = set (chain_elements sL R) - {v}" by blast
      have dist: "distinct (concat (hash_table_m sS))" using inv by (simp add: striped_inv_def)
      have "count (striped_contents sS) v \<le> 1"
        using dist unfolding striped_contents_def by (simp add: distinct_count_atmost_1)
      then have "count (striped_contents sS - {#v#}) v = 0" by simp
      then have "v \<notin># striped_contents sS - {#v#}" by (simp add: not_in_iff)
      moreover have "set_mset (striped_contents sS) = insert v (set_mset (striped_contents sS - {#v#}))"
        using insert_DiffM[OF True] by (metis set_mset_add_mset_insert)
      ultimately have "set_mset (striped_contents sS - {#v#}) = set_mset (striped_contents sS) - {v}"
        by auto
      then have "same_contents hash sS' sL'"
        unfolding same_contents_def
        using inv' gf g' rep' l2 els c' n' ln cnt nomax v True iff
        by (auto dest: in_diffD)
      moreover have "size (striped_contents sS') \<le> Suc (size (striped_contents sS))"
        unfolding c' by (metis diff_subset_eq_self le_SucI size_mset_mono)
      ultimately show ?thesis using sr lr True iff Remove g' by auto
    qed
  next
    case (Contains v)
    with arg have v: "v \<noteq> ElementTraits_Max" by auto
    then have iff: "v \<in> set (chain_elements sL R) \<longleftrightarrow> v \<in># striped_contents sS"
      using els by auto
    show ?thesis
      using Contains Striped_Contains_inv[OF inv, of v] Linked_Contains_rep[OF rep, of v] iff rel
      by auto
  next
    case Size
    then show ?thesis using rel cnt by (auto simp: Striped_Size_def Linked_Size_def same_contents_def)
  qed
qed

lemma unat_counter_le:
  "striped_inv hash s \<Longrightarrow> unat (num_elements_m s) \<le> size (striped_contents s)"
  by (simp add: striped_inv_def striped_contents_def unat_of_nat)

lemma counter_nowrap:
  assumes inv: "striped_inv hash s"
    and bound: "(size (striped_contents s) + n) * growth_factor_m s < 2 ^ 64"
  shows "unat (num_elements_m s) * growth_factor_m s < 2 ^ 64"
proof -
  have "unat (num_elements_m s) \<le> size (striped_contents s) + n"
    using unat_counter_le[OF inv] by simp
  then have "unat (num_elements_m s) * growth_factor_m s
      \<le> (size (striped_contents s) + n) * growth_factor_m s"
    by (rule mult_le_mono1)
  then show ?thesis using bound by (rule le_less_trans)
qed

lemma bound_step:
  assumes bound: "(size M + Suc n) * g < (2 :: nat) ^ 64" and le: "size M' \<le> Suc (size M)"
  shows "(size M' + n) * g < 2 ^ 64"
proof -
  have "size M' + n \<le> size M + Suc n" using le by simp
  then have "(size M' + n) * g \<le> (size M + Suc n) * g" by (rule mult_le_mono1)
  then show ?thesis using bound by (rule le_less_trans)
qed

lemma same_contents_run:
  assumes "same_contents hash sS sL" "\<forall>c\<in>set cs. ElementTraits_Max \<notin> set_operation c"
    and "(size (striped_contents sS) + length cs) * growth_factor_m sS < 2 ^ 64"
  shows "\<exists>rs sS' sL'. Striped_run hash sS cs = Some (Inr (rs, sS'))
           \<and> Linked_run sL cs = Some (Inr (rs, sL')) \<and> same_contents hash sS' sL'"
  using assms
proof (induction cs arbitrary: sS sL)
  case Nil
  then show ?case by simp
next
  case (Cons c cs)
  have inv: "striped_inv hash sS" using Cons.prems(1) by (simp add: same_contents_def)
  have nw: "unat (num_elements_m sS) * growth_factor_m sS < 2 ^ 64"
    by (rule counter_nowrap[OF inv Cons.prems(3)])
  have arg: "ElementTraits_Max \<notin> set_operation c" using Cons.prems(2) by simp
  from same_contents_call[OF Cons.prems(1) arg nw] obtain r sS1 sL1 where
    1: "Striped_call hash sS c = Some (Inr (r, sS1))" "Linked_call sL c = Some (Inr (r, sL1))"
    and rel1: "same_contents hash sS1 sL1"
    and g1: "growth_factor_m sS1 = growth_factor_m sS"
    and sz1: "size (striped_contents sS1) \<le> Suc (size (striped_contents sS))"
    by blast
  have "(size (striped_contents sS) + Suc (length cs)) * growth_factor_m sS < 2 ^ 64"
    using Cons.prems(3) by simp
  from bound_step[OF this sz1]
  have b1: "(size (striped_contents sS1) + length cs) * growth_factor_m sS1 < 2 ^ 64"
    by (simp add: g1)
  have args: "\<forall>c\<in>set cs. ElementTraits_Max \<notin> set_operation c" using Cons.prems(2) by simp
  from Cons.IH[OF rel1 args b1] obtain rs sS' sL' where
    "Striped_run hash sS1 cs = Some (Inr (rs, sS'))" "Linked_run sL1 cs = Some (Inr (rs, sL'))"
    "same_contents hash sS' sL'" by blast
  with 1 show ?case by auto
qed

text \<open>The invariants along a list of calls.\<close>

lemma Striped_Size_sum_of_buckets:
  "striped_inv hash s \<Longrightarrow> Striped_Size s = of_nat (sum_list (map length (hash_table_m s)))"
  by (simp add: striped_inv_def Striped_Size_def length_concat)

lemma Striped_call_inv:
  assumes inv: "striped_inv hash s" and gf: "2 \<le> growth_factor_m s"
    and nowrap: "unat (num_elements_m s) * growth_factor_m s < 2 ^ 64"
  shows "\<exists>r s'. Striped_call hash s c = Some (Inr (r, s')) \<and> striped_inv hash s'
           \<and> growth_factor_m s' = growth_factor_m s
           \<and> size (striped_contents s') \<le> Suc (size (striped_contents s))"
proof (cases c)
  case (Insert v)
  show ?thesis
  proof (cases "v \<in># striped_contents s")
    case True
    from Striped_Insert_present[OF inv True] Insert inv show ?thesis by auto
  next
    case False
    from Striped_Insert_total[OF gf inv False nowrap] obtain s' where
      "Striped_Insert hash s v = Some (Inr (True, s'))" "striped_inv hash s'"
      "striped_contents s' = add_mset v (striped_contents s)"
      "growth_factor_m s' = growth_factor_m s" by blast
    with Insert show ?thesis by auto
  qed
next
  case (Remove v)
  from Striped_Remove_inv[OF inv, of v] obtain s' where
    r: "Striped_Remove hash s v = Inr (v \<in># striped_contents s, s')" "striped_inv hash s'"
    "growth_factor_m s' = growth_factor_m s"
    and c': "striped_contents s' = striped_contents s - {#v#}" by blast
  have "size (striped_contents s') \<le> Suc (size (striped_contents s))"
    unfolding c' by (metis diff_subset_eq_self le_SucI size_mset_mono)
  with Remove r show ?thesis by auto
next
  case (Contains v)
  with Striped_Contains_inv[OF inv, of v] inv show ?thesis by auto
next
  case Size
  with inv show ?thesis by auto
qed

lemma Striped_run_inv:
  assumes "striped_inv hash s" "2 \<le> growth_factor_m s"
    and "(size (striped_contents s) + length cs) * growth_factor_m s < 2 ^ 64"
  shows "\<exists>rs s'. Striped_run hash s cs = Some (Inr (rs, s')) \<and> striped_inv hash s'"
  using assms
proof (induction cs arbitrary: s)
  case Nil
  then show ?case by simp
next
  case (Cons c cs)
  have nw: "unat (num_elements_m s) * growth_factor_m s < 2 ^ 64"
    by (rule counter_nowrap[OF Cons.prems(1) Cons.prems(3)])
  from Striped_call_inv[OF Cons.prems(1) Cons.prems(2) nw, of c] obtain r s1 where
    1: "Striped_call hash s c = Some (Inr (r, s1))" and inv1: "striped_inv hash s1"
    and g1: "growth_factor_m s1 = growth_factor_m s"
    and sz1: "size (striped_contents s1) \<le> Suc (size (striped_contents s))" by blast
  have "(size (striped_contents s) + Suc (length cs)) * growth_factor_m s < 2 ^ 64"
    using Cons.prems(3) by simp
  from bound_step[OF this sz1]
  have b1: "(size (striped_contents s1) + length cs) * growth_factor_m s1 < 2 ^ 64"
    by (simp add: g1)
  have gf1: "2 \<le> growth_factor_m s1" using Cons.prems(2) g1 by simp
  from Cons.IH[OF inv1 gf1 b1] obtain rs s' where
    "Striped_run hash s1 cs = Some (Inr (rs, s'))" "striped_inv hash s'" by blast
  with 1 show ?case by auto
qed

lemma Linked_call_rep:
  assumes rep: "linked_rep s h R" and c: "c \<noteq> Remove ElementTraits_Max"
  shows "\<exists>r s' R'. Linked_call s c = Some (Inr (r, s')) \<and> linked_rep s' h R'"
proof (cases c)
  case (Insert v)
  from Linked_Insert_rep[OF rep, of v] obtain s' R' where
    "Linked_Insert s v = Some (Inr (v \<notin> set (chain_elements s R), s'))" "linked_rep s' h R'"
    by blast
  with Insert show ?thesis by auto
next
  case (Remove v)
  with c have v: "v \<noteq> ElementTraits_Max" by simp
  from Linked_Remove_rep[OF rep, of v] obtain s' where
    rem: "Linked_Remove s v = Some (Inr (v \<in> set (chain_elements s R), s'))"
    and same: "v \<notin> set (chain_elements s R) \<longrightarrow> s' = s"
    and rep': "v \<in> set (chain_elements s R) \<and> v \<noteq> ElementTraits_Max \<longrightarrow>
                (\<exists>R'. linked_rep s' h R'
                   \<and> set (chain_elements s' R') = set (chain_elements s R) - {v}
                   \<and> Suc (length R') = length R)"
    by blast
  have "\<exists>R'. linked_rep s' h R'"
    using same rep' v rep by (cases "v \<in> set (chain_elements s R)") auto
  with rem Remove show ?thesis by auto
next
  case (Contains v)
  with Linked_Contains_rep[OF rep, of v] rep show ?thesis by auto
next
  case Size
  with rep show ?thesis by auto
qed

lemma Linked_run_rep:
  assumes "linked_rep s h R" "\<forall>c \<in> set cs. c \<noteq> Remove ElementTraits_Max"
  shows "\<exists>rs s' R'. Linked_run s cs = Some (Inr (rs, s')) \<and> linked_rep s' h R'"
  using assms
proof (induction cs arbitrary: s R)
  case Nil
  then show ?case by auto
next
  case (Cons c cs)
  from Linked_call_rep[OF Cons.prems(1), of c] Cons.prems(2) obtain r s1 R1 where
    1: "Linked_call s c = Some (Inr (r, s1))" and rep1: "linked_rep s1 h R1" by auto
  from Cons.IH[OF rep1] Cons.prems(2) obtain rs s' R' where
    "Linked_run s1 cs = Some (Inr (rs, s'))" "linked_rep s' h R'" by auto
  with 1 show ?case by auto
qed



lemma load_within_real_limit:
  assumes "m = nat \<lfloor>lf :: real\<rfloor>" and "real n / real cap \<le> lf"
  shows "n div cap \<le> m"
proof -
  have "\<lfloor>real n / real cap\<rfloor> \<le> \<lfloor>lf\<rfloor>" using assms(2) by (rule floor_mono)
  then have "int (n div cap) \<le> \<lfloor>lf\<rfloor>" by (simp add: floor_divide_of_nat_eq)
  then show ?thesis using assms(1) by simp
qed

lemma Linked_Insert_Max_rep:
  assumes "linked_rep s h R"
  shows "Linked_Insert s ElementTraits_Max = Some (Inr (False, s))"
proof -
  from assms have "R \<noteq> []" and "last (chain_elements s R) = ElementTraits_Max"
    by (auto simp: linked_rep_def)
  then have mem: "ElementTraits_Max \<in> set (chain_elements s R)"
    by (metis chain_elements_def last_in_set map_is_Nil_conv)
  from Linked_Insert_rep[OF assms, of ElementTraits_Max] mem show ?thesis by auto
qed


lemma Max_uint32: "ElementTraits_Max = (4294967295 :: 32 word)"
  by (simp add: ElementTraits_Max_def top_word_eq)

lemma four_buckets: "(replicate 4 [])[3 := [x]] = [[], [], [], [x]]"
  by (simp add: eval_nat_numeral)


section \<open>The sentinels of the linked set\<close>

text \<open>
  C1. The claim: the two sentinels stay head and tail forever, \<^verbatim>\<open>Contains\<close> never reports
  one as a member and \<^verbatim>\<open>Remove\<close> of a sentinel value returns false without unlinking
  anything. On a freshly constructed set over \<^verbatim>\<open>uint32_t\<close> the code does otherwise:
  \<^verbatim>\<open>Contains(Max())\<close> returns true, and \<^verbatim>\<open>Remove(Max())\<close> returns true, stores
  \<^verbatim>\<open>nullptr\<close> into the head's successor, which unlinks the tail sentinel, and takes the
  counter from 0 to \<open>2 ^ 64 - 1\<close>.
\<close>

theorem C1_tail_sentinel_matched_and_unlinked:
  "Linked_Contains (OptimisticLinkedSet_new []) (ElementTraits_Max :: 32 word) = Some (Inr True)
   \<and> Linked_Remove (OptimisticLinkedSet_new []) (ElementTraits_Max :: 32 word) =
       Some (Inr (True,
         \<lparr>allocator_m = [\<lparr>element_m = 0, next_m = None, marked_m = False\<rparr>,
                         \<lparr>element_m = 4294967295, next_m = None, marked_m = False\<rparr>],
          head_m = Some 0,
          elements_m = 18446744073709551615\<rparr>))"
  by code_simp


section \<open>The load factor of the striped set\<close>

text \<open>
  C2. The claim: \<^verbatim>\<open>Insert\<close> resizes exactly when \<open>size / capacity\<close>, as a real number,
  exceeds the configured maximum, 1.25 by default. In a set built with four stripes and
  the default arguments, after six insertions the ratio is \<open>6 / 4 = 1.5\<close>, above 1.25; the
  seventh insertion still adds its element to the table of four buckets, with no resize.
  Both sides of the comparison are \<^verbatim>\<open>std::size_t\<close> in the code: 1.25 is stored as 1 and
  the quotient 1.5 is returned as 1.
\<close>

theorem C2_no_resize_above_real_threshold:
  "Striped_run (\<lambda>x. x) (StripedHashSet_default 4) (map Insert [0, 1, 2, 3, 4, 5 :: nat]) =
     Some (Inr (replicate 6 (ReturnedBool True),
       \<lparr>growth_factor_m = 2, max_load_factor_m = 1, num_elements_m = 6, num_stripes_m = 4,
        hash_table_m = [[4, 0], [5, 1], [2], [3]]\<rparr>))
   \<and> (6 :: real) / 4 > 5 / 4
   \<and> Striped_Insert (\<lambda>x. x)
        \<lparr>growth_factor_m = 2, max_load_factor_m = 1, num_elements_m = 6, num_stripes_m = 4,
         hash_table_m = [[4, 0], [5, 1], [2], [3 :: nat]]\<rparr> 6 =
       Some (Inr (True,
        \<lparr>growth_factor_m = 2, max_load_factor_m = 1, num_elements_m = 7, num_stripes_m = 4,
         hash_table_m = [[4, 0], [5, 1], [6, 2], [3]]\<rparr>))"
  by code_simp


section \<open>The marked flag of a removed node\<close>

text \<open>
  C3. The claim: a successful \<^verbatim>\<open>Remove\<close> stores the successor of \<^verbatim>\<open>curr\<close> into
  \<^verbatim>\<open>pred\<close>, decrements the counter and leaves the removed node marked. After
  \<^verbatim>\<open>Insert(5)\<close> and \<^verbatim>\<open>Remove(5)\<close> on a fresh set the node of 5, at address 2, is
  unlinked (the head points to the tail again) and the counter is back to 0, but its
  \<^verbatim>\<open>marked_\<close> flag is still false.
\<close>

theorem C3_removed_node_not_marked:
  "Linked_run (OptimisticLinkedSet_new []) [Insert (5 :: 32 word), Remove 5] =
     Some (Inr ([ReturnedBool True, ReturnedBool True],
       \<lparr>allocator_m = [\<lparr>element_m = 0, next_m = Some 1, marked_m = False\<rparr>,
                       \<lparr>element_m = 4294967295, next_m = None, marked_m = False\<rparr>,
                       \<lparr>element_m = 5, next_m = Some 1, marked_m = False\<rparr>],
        head_m = Some 0,
        elements_m = 0\<rparr>))"
  by code_simp


section \<open>Insertion into the striped set\<close>





section \<open>Resizing the striped set\<close>

text \<open>
  C5, as amended. In a striped set that satisfies its invariant, with a growth factor of
  at least 1 and \<open>capacity * growth_factor\<close> below \<open>2 ^ 64\<close>, \<^verbatim>\<open>Rehash\<close> returns. It
  re-checks the load and changes nothing if the load factor \<open>size / capacity\<close>, as a real
  number, is not over the configured load factor. Whenever it does change the set, and
  at least whenever the integer part of the load factor is above the integer part of the
  configured one, the new table has exactly \<open>capacity * growth_factor\<close> buckets. In every
  case each element is in bucket \<open>hash mod capacity\<close> of the resulting table, the contents
  are the same, \<^verbatim>\<open>Contains\<close> finds after the call exactly what it found before, and
  \<^verbatim>\<open>Size\<close> is unchanged.
\<close>

theorem C5_Rehash:
  assumes "striped_inv hash s" and "0 < growth_factor_m s"
    and "length (hash_table_m s) * growth_factor_m s < 2 ^ 64"
  shows "\<exists>s'. Rehash hash s = Inr s'
     \<and> (\<forall>load_factor.
           max_load_factor_m s = nat \<lfloor>load_factor :: real\<rfloor>
           \<and> real (unat (num_elements_m s)) / real (length (hash_table_m s)) \<le> load_factor
           \<longrightarrow> s' = s)
     \<and> (s' \<noteq> s \<longrightarrow>
          length (hash_table_m s') = length (hash_table_m s) * growth_factor_m s)
     \<and> (max_load_factor_m s < unat (num_elements_m s) div length (hash_table_m s) \<longrightarrow>
          length (hash_table_m s') = length (hash_table_m s) * growth_factor_m s)
     \<and> well_placed hash (hash_table_m s')
     \<and> striped_contents s' = striped_contents s
     \<and> (\<forall>x. Striped_Contains hash s x = Inr (x \<in># striped_contents s))
     \<and> (\<forall>x. Striped_Contains hash s' x = Inr (x \<in># striped_contents s))
     \<and> Striped_Size s' = Striped_Size s"
proof -
  let ?load = "unat (num_elements_m s) div length (hash_table_m s)"
  from Rehash_inv[OF assms] obtain s' where
    reh: "Rehash hash s = Inr s'"
    and same: "?load \<le> max_load_factor_m s \<longrightarrow> s' = s"
    and grown: "max_load_factor_m s < ?load \<longrightarrow>
          s' = s\<lparr>hash_table_m := hash_table_m s'\<rparr> \<and>
          length (hash_table_m s') = length (hash_table_m s) * growth_factor_m s"
    and c: "striped_contents s' = striped_contents s"
    and inv': "striped_inv hash s'"
    by blast
  have wp: "well_placed hash (hash_table_m s')" using inv' by (simp add: striped_inv_def)
  have size: "Striped_Size s' = Striped_Size s"
  proof (cases "?load \<le> max_load_factor_m s")
    case True
    with same show ?thesis by simp
  next
    case False
    with grown have "s' = s\<lparr>hash_table_m := hash_table_m s'\<rparr>" by simp
    then have "num_elements_m s' = num_elements_m s" by (rule ssubst) simp
    then show ?thesis by (simp add: Striped_Size_def)
  qed
  have real: "\<forall>load_factor.
           max_load_factor_m s = nat \<lfloor>load_factor :: real\<rfloor>
           \<and> real (unat (num_elements_m s)) / real (length (hash_table_m s)) \<le> load_factor
           \<longrightarrow> s' = s"
    using same load_within_real_limit by blast
  have changed: "s' \<noteq> s \<longrightarrow>
          length (hash_table_m s') = length (hash_table_m s) * growth_factor_m s"
    using same grown by (cases "?load \<le> max_load_factor_m s") auto
  have over: "max_load_factor_m s < ?load \<longrightarrow>
          length (hash_table_m s') = length (hash_table_m s) * growth_factor_m s"
    using grown by blast
  have before: "\<forall>x. Striped_Contains hash s x = Inr (x \<in># striped_contents s)"
    using Striped_Contains_inv[OF assms(1)] by blast
  have after: "\<forall>x. Striped_Contains hash s' x = Inr (x \<in># striped_contents s)"
    using Striped_Contains_inv[OF inv'] c by simp
  from reh real changed over wp c before after size show ?thesis by blast
qed

text \<open>
  The table of four buckets with eight elements again: its load 2 is above the limit 1,
  so \<^verbatim>\<open>Rehash\<close> builds a table of eight buckets; 7 is found afterwards and the size is
  still 8.
\<close>

theorem C5_Rehash_witness:
  "striped_inv (\<lambda>x. x)
     \<lparr>growth_factor_m = 2, max_load_factor_m = 1, num_elements_m = 8, num_stripes_m = 4,
      hash_table_m = [[4, 0], [5, 1], [6, 2], [7, 3 :: nat]]\<rparr>
   \<and> (\<exists>s'. Rehash (\<lambda>x. x)
     \<lparr>growth_factor_m = 2, max_load_factor_m = 1, num_elements_m = 8, num_stripes_m = 4,
      hash_table_m = [[4, 0], [5, 1], [6, 2], [7, 3 :: nat]]\<rparr> = Inr s'
        \<and> length (hash_table_m s') = 8
        \<and> Striped_Contains (\<lambda>x. x) s' 7 = Inr True
        \<and> Striped_Size s' = 8)"
proof -
  let ?s = "\<lparr>growth_factor_m = 2, max_load_factor_m = 1, num_elements_m = 8, num_stripes_m = 4,
      hash_table_m = [[4, 0], [5, 1], [6, 2], [7, 3 :: nat]]\<rparr>"
  have wp: "well_placed (\<lambda>x. x) [[4, 0], [5, 1], [6, 2], [7, 3 :: nat]]"
    unfolding well_placed_def
  proof (intro allI impI)
    fix i :: nat assume "i < length [[4, 0], [5, 1], [6, 2], [7, 3 :: nat]]"
    then have "i = 0 \<or> i = 1 \<or> i = 2 \<or> i = 3" by auto
    then show "\<forall>x\<in>set ([[4, 0], [5, 1], [6, 2], [7, 3 :: nat]] ! i).
        x mod length [[4, 0], [5, 1], [6, 2], [7, 3 :: nat]] = i"
      by auto
  qed
  have inv: "striped_inv (\<lambda>x. x) ?s"
    using wp by (simp add: striped_inv_def)
  have gf: "0 < growth_factor_m ?s" by simp
  have nw: "length (hash_table_m ?s) * growth_factor_m ?s < 2 ^ 64" by simp
  have load: "max_load_factor_m ?s < unat (num_elements_m ?s) div length (hash_table_m ?s)"
    by simp
  have m7: "7 \<in># striped_contents ?s" by (simp add: striped_contents_def)
  from C5_Rehash[OF inv gf nw] obtain s' where
    reh: "Rehash (\<lambda>x. x) ?s = Inr s'"
    and grown: "max_load_factor_m ?s < unat (num_elements_m ?s) div length (hash_table_m ?s) \<longrightarrow>
          length (hash_table_m s') = length (hash_table_m ?s) * growth_factor_m ?s"
    and found: "\<forall>x. Striped_Contains (\<lambda>x. x) s' x = Inr (x \<in># striped_contents ?s)"
    and size: "Striped_Size s' = Striped_Size ?s"
    by blast
  have "length (hash_table_m s') = 8" using grown load by simp
  moreover have "Striped_Contains (\<lambda>x. x) s' 7 = Inr True" using found m7 by simp
  moreover have "Striped_Size s' = 8" using size by (simp add: Striped_Size_def)
  ultimately have "\<exists>s'. Rehash (\<lambda>x. x) ?s = Inr s'
        \<and> length (hash_table_m s') = 8
        \<and> Striped_Contains (\<lambda>x. x) s' 7 = Inr True
        \<and> Striped_Size s' = 8"
    using reh by blast
  with inv show ?thesis by blast
qed

text \<open>
  C5 as stated, for every set, fails with the growth factor 0, which the constructor
  accepts: after \<^verbatim>\<open>Insert(0)\<close> and \<^verbatim>\<open>Insert(1)\<close> into a set of one stripe the load 2 is
  over the limit, the new size is \<open>1 * 0 = 0\<close>, and \<^verbatim>\<open>Rehash\<close> takes the hash of the first
  element modulo 0 instead of building a table that holds the elements.
\<close>

theorem C5_counterexample:
  "Striped_run (\<lambda>x. x) (StripedHashSet_new 1 0 (5 / 4)) [Insert 0, Insert (1 :: nat)] =
     Some (Inr ([ReturnedBool True, ReturnedBool True],
       \<lparr>growth_factor_m = 0, max_load_factor_m = 1, num_elements_m = 2, num_stripes_m = 1,
        hash_table_m = [[1, 0]]\<rparr>))
   \<and> Rehash (\<lambda>x. x)
       \<lparr>growth_factor_m = 0, max_load_factor_m = 1, num_elements_m = 2, num_stripes_m = 1,
        hash_table_m = [[1, 0 :: nat]]\<rparr> = Inl DivisionByZero"
proof
  show "Striped_run (\<lambda>x. x) (StripedHashSet_new 1 0 (5 / 4)) [Insert 0, Insert (1 :: nat)] =
     Some (Inr ([ReturnedBool True, ReturnedBool True],
       \<lparr>growth_factor_m = 0, max_load_factor_m = 1, num_elements_m = 2, num_stripes_m = 1,
        hash_table_m = [[1, 0]]\<rparr>))"
    by code_simp
  show "Rehash (\<lambda>x. x)
       \<lparr>growth_factor_m = 0, max_load_factor_m = 1, num_elements_m = 2, num_stripes_m = 1,
        hash_table_m = [[1, 0 :: nat]]\<rparr> = Inl DivisionByZero"
    by (simp add: Rehash_def GetLoadFactor_def)
qed


section \<open>The order of the chain\<close>

text \<open>
  C6, as amended. The calls are run one after the other, none overlapping another. In a
  linked set whose chain is the head sentinel followed by nodes with strictly increasing
  elements, the last of them the tail sentinel, every \<^verbatim>\<open>Insert\<close> returns (true exactly
  when the argument was not on the chain) and leaves such a chain, whose elements are
  those of before and the argument; and every \<^verbatim>\<open>Remove\<close> of a value other than
  \<^verbatim>\<open>Max()\<close> returns (true exactly when the argument was on the chain) and leaves such a
  chain, whose elements are those of before without the argument. So between such calls
  every element that was inserted and not removed is on the chain from the head. The
  order is strict after the head sentinel only; nothing is said about \<^verbatim>\<open>Remove(Max())\<close>
  nor about calls that overlap.
\<close>

theorem C6_sorted_chain_preserved:
  assumes "linked_rep s h R"
  shows "(\<exists>s' R'. Linked_Insert s v = Some (Inr (v \<notin> set (chain_elements s R), s'))
            \<and> linked_rep s' h R'
            \<and> set (chain_elements s' R') = insert v (set (chain_elements s R)))
    \<and> (v \<noteq> ElementTraits_Max \<longrightarrow>
         (\<exists>s' R'. Linked_Remove s v = Some (Inr (v \<in> set (chain_elements s R), s'))
            \<and> linked_rep s' h R'
            \<and> set (chain_elements s' R') = set (chain_elements s R) - {v}))"
proof (intro conjI impI)
  from Linked_Insert_rep[OF assms, of v] obtain s' R' where
    ins: "Linked_Insert s v = Some (Inr (v \<notin> set (chain_elements s R), s'))"
    and rep': "linked_rep s' h R'"
    and eff: "if v \<in> set (chain_elements s R) then s' = s \<and> R' = R
               else set (chain_elements s' R') = insert v (set (chain_elements s R))
                    \<and> length R' = Suc (length R) \<and> elements_m s' = elements_m s + 1"
    by blast
  have "set (chain_elements s' R') = insert v (set (chain_elements s R))"
    using eff by (auto split: if_splits)
  with ins rep' show "\<exists>s' R'. Linked_Insert s v = Some (Inr (v \<notin> set (chain_elements s R), s'))
            \<and> linked_rep s' h R'
            \<and> set (chain_elements s' R') = insert v (set (chain_elements s R))"
    by blast
next
  assume v: "v \<noteq> ElementTraits_Max"
  from Linked_Remove_rep[OF assms, of v] obtain s' where
    rem: "Linked_Remove s v = Some (Inr (v \<in> set (chain_elements s R), s'))"
    and same: "v \<notin> set (chain_elements s R) \<longrightarrow> s' = s"
    and rep: "v \<in> set (chain_elements s R) \<and> v \<noteq> ElementTraits_Max \<longrightarrow>
                (\<exists>R'. linked_rep s' h R'
                   \<and> set (chain_elements s' R') = set (chain_elements s R) - {v}
                   \<and> Suc (length R') = length R)"
    by blast
  show "\<exists>s' R'. Linked_Remove s v = Some (Inr (v \<in> set (chain_elements s R), s'))
            \<and> linked_rep s' h R'
            \<and> set (chain_elements s' R') = set (chain_elements s R) - {v}"
  proof (cases "v \<in> set (chain_elements s R)")
    case True
    with rep v rem show ?thesis by blast
  next
    case False
    with same have "s' = s" by simp
    moreover have "set (chain_elements s R) = set (chain_elements s R) - {v}"
      using False by simp
    ultimately show ?thesis using rem assms by blast
  qed
qed

text \<open>
  The set that holds 5: the head at address 0, the node of 5 at address 2, the tail at
  address 1. \<^verbatim>\<open>Insert(3)\<close> returns true and leaves a sorted chain with the elements 3, 5
  and \<open>2 ^ 32 - 1\<close>; \<^verbatim>\<open>Remove(5)\<close> returns true and leaves a sorted chain with the tail
  sentinel's element only.
\<close>

theorem C6_sorted_chain_preserved_witness:
  "Linked_Insert (OptimisticLinkedSet_new []) (5 :: 32 word) =
     Some (Inr (True,
       \<lparr>allocator_m = [\<lparr>element_m = 0, next_m = Some 2, marked_m = False\<rparr>,
                       \<lparr>element_m = 4294967295, next_m = None, marked_m = False\<rparr>,
                       \<lparr>element_m = 5, next_m = Some 1, marked_m = False\<rparr>],
        head_m = Some 0, elements_m = 1\<rparr>))
   \<and> linked_rep
       \<lparr>allocator_m = [\<lparr>element_m = 0 :: 32 word, next_m = Some 2, marked_m = False\<rparr>,
                       \<lparr>element_m = 4294967295, next_m = None, marked_m = False\<rparr>,
                       \<lparr>element_m = 5, next_m = Some 1, marked_m = False\<rparr>],
        head_m = Some 0, elements_m = 1\<rparr> 0 [2, 1]
   \<and> (\<exists>s' R'. Linked_Insert
       \<lparr>allocator_m = [\<lparr>element_m = 0 :: 32 word, next_m = Some 2, marked_m = False\<rparr>,
                       \<lparr>element_m = 4294967295, next_m = None, marked_m = False\<rparr>,
                       \<lparr>element_m = 5, next_m = Some 1, marked_m = False\<rparr>],
        head_m = Some 0, elements_m = 1\<rparr> 3 = Some (Inr (True, s'))
          \<and> linked_rep s' 0 R' \<and> set (chain_elements s' R') = {3, 5, 4294967295})
   \<and> (\<exists>s' R'. Linked_Remove
       \<lparr>allocator_m = [\<lparr>element_m = 0 :: 32 word, next_m = Some 2, marked_m = False\<rparr>,
                       \<lparr>element_m = 4294967295, next_m = None, marked_m = False\<rparr>,
                       \<lparr>element_m = 5, next_m = Some 1, marked_m = False\<rparr>],
        head_m = Some 0, elements_m = 1\<rparr> 5 = Some (Inr (True, s'))
          \<and> linked_rep s' 0 R' \<and> set (chain_elements s' R') = {4294967295})"
proof -
  let ?s = "\<lparr>allocator_m = [\<lparr>element_m = 0 :: 32 word, next_m = Some 2, marked_m = False\<rparr>,
                       \<lparr>element_m = 4294967295, next_m = None, marked_m = False\<rparr>,
                       \<lparr>element_m = 5, next_m = Some 1, marked_m = False\<rparr>],
        head_m = Some 0, elements_m = 1\<rparr>"
  have reached: "Linked_Insert (OptimisticLinkedSet_new []) (5 :: 32 word) = Some (Inr (True, ?s))"
    by code_simp
  have ce: "chain_elements ?s [2, 1] = [5, 4294967295]"
    by (simp add: chain_elements_def)
  have rep: "linked_rep ?s 0 [2, 1]"
    unfolding linked_rep_def ce
    by (simp add: unmarked_def ElementTraits_Min_def bot_word_eq Max_uint32)
  have neq: "(3 :: 32 word) \<noteq> ElementTraits_Max" "(5 :: 32 word) \<noteq> ElementTraits_Max"
    by (simp_all add: Max_uint32)
  have in3: "(3 :: 32 word) \<notin> set (chain_elements ?s [2, 1])"
    and in5: "(5 :: 32 word) \<in> set (chain_elements ?s [2, 1])"
    unfolding ce by simp_all
  from C6_sorted_chain_preserved[OF rep, of 3] in3 obtain s3 R3 where
    i3: "Linked_Insert ?s 3 = Some (Inr (True, s3))" and r3: "linked_rep s3 0 R3"
    and e3: "set (chain_elements s3 R3) = insert 3 (set (chain_elements ?s [2, 1]))"
    by auto
  from C6_sorted_chain_preserved[OF rep, of 5] neq in5 obtain s5 R5 where
    i5: "Linked_Remove ?s 5 = Some (Inr (True, s5))" and r5: "linked_rep s5 0 R5"
    and e5: "set (chain_elements s5 R5) = set (chain_elements ?s [2, 1]) - {5}"
    by auto
  have "set (chain_elements s3 R3) = {3, 5, 4294967295}" unfolding e3 ce by simp
  with i3 r3 have A: "\<exists>s' R'. Linked_Insert ?s 3 = Some (Inr (True, s'))
          \<and> linked_rep s' 0 R' \<and> set (chain_elements s' R') = {3, 5, 4294967295}"
    by blast
  have "set (chain_elements s5 R5) = {4294967295}" unfolding e5 ce by simp
  with i5 r5 have B: "\<exists>s' R'. Linked_Remove ?s 5 = Some (Inr (True, s'))
          \<and> linked_rep s' 0 R' \<and> set (chain_elements s' R') = {4294967295}"
    by blast
  from reached rep A B show ?thesis by blast
qed

text \<open>
  C6 as stated fails: \<^verbatim>\<open>Insert(Min())\<close> on a fresh set over \<^verbatim>\<open>uint32_t\<close> succeeds and
  links a second node holding 0 right after the head sentinel. The chain from the head is
  then the nodes 0, 2, 1 with the elements 0, 0, \<open>2 ^ 32 - 1\<close>, which is not strictly
  increasing.
\<close>

theorem C6_counterexample:
  "Linked_Insert (OptimisticLinkedSet_new []) (ElementTraits_Min :: 32 word) =
     Some (Inr (True,
       \<lparr>allocator_m = [\<lparr>element_m = 0, next_m = Some 2, marked_m = False\<rparr>,
                       \<lparr>element_m = 4294967295, next_m = None, marked_m = False\<rparr>,
                       \<lparr>element_m = 0, next_m = Some 1, marked_m = False\<rparr>],
        head_m = Some 0,
        elements_m = 1\<rparr>))
   \<and> path [\<lparr>element_m = 0 :: 32 word, next_m = Some 2, marked_m = False\<rparr>,
            \<lparr>element_m = 4294967295, next_m = None, marked_m = False\<rparr>,
            \<lparr>element_m = 0, next_m = Some 1, marked_m = False\<rparr>] (Some 0) [0, 2, 1] None
   \<and> \<not> sorted_wrt (<) [0, 0, 4294967295 :: 32 word]"
  by code_simp


section \<open>The size counter\<close>

text \<open>
  C7. The claim: at quiescence \<^verbatim>\<open>Size()\<close> is the number of elements inserted and not
  removed. On a fresh linked set over \<^verbatim>\<open>uint32_t\<close>, \<^verbatim>\<open>Remove(Max())\<close> returns true
  although nothing was inserted, and \<^verbatim>\<open>Size()\<close> then returns \<open>2 ^ 64 - 1\<close>: the
  removal matched the tail sentinel and \<^verbatim>\<open>fetch_sub\<close> wrapped the counter around.
\<close>

theorem C7_Size_after_Remove_Max:
  "Linked_run (OptimisticLinkedSet_new []) [Remove (ElementTraits_Max :: 32 word), Size] =
     Some (Inr ([ReturnedBool True, ReturnedSize 18446744073709551615],
       \<lparr>allocator_m = [\<lparr>element_m = 0, next_m = None, marked_m = False\<rparr>,
                       \<lparr>element_m = 4294967295, next_m = None, marked_m = False\<rparr>],
        head_m = Some 0,
        elements_m = 18446744073709551615\<rparr>))"
  by code_simp


section \<open>The two sets side by side\<close>

text \<open>
  C8, as amended. Take a striped set constructed with at least one stripe, a growth
  factor of at least 2 and a load factor that is not negative, and a linked set
  constructed on an empty arena. For every list of calls none of which has \<^verbatim>\<open>Max()\<close>
  as its argument, and short enough that its length times the growth factor is below
  \<open>2 ^ 64\<close> (no resize overflows \<^verbatim>\<open>size_t\<close>), both runs complete and return the same
  results, call by call.
\<close>

theorem C8_same_results_without_Max:
  assumes "0 < concurrency_level" and "2 \<le> growth_factor" and "0 \<le> load_factor"
    and "length cs * growth_factor < 2 ^ 64"
    and "\<forall>c \<in> set cs. ElementTraits_Max \<notin> set_operation c"
  shows "\<exists>rs sS sL.
           Striped_run hash (StripedHashSet_new concurrency_level growth_factor load_factor) cs
             = Some (Inr (rs, sS))
           \<and> Linked_run (OptimisticLinkedSet_new []) cs = Some (Inr (rs, sL))"
proof -
  let ?sS = "StripedHashSet_new concurrency_level growth_factor load_factor :: 'a StripedHashSet"
  have "(size (striped_contents ?sS) + length cs) * growth_factor_m ?sS < 2 ^ 64"
    using assms(4) by (simp add: striped_contents_new) (simp add: StripedHashSet_new_def)
  from same_contents_run[OF same_contents_new[OF assms(1) assms(2)] assms(5) this]
  show ?thesis by blast
qed

text \<open>
  One stripe, the default growth factor and load factor, the hash of \<^verbatim>\<open>uint32_t\<close> its
  value, and eight calls; the third insertion finds the load 2 above the stored limit 1
  and resizes the striped set.
\<close>

theorem C8_same_results_without_Max_witness:
  "\<exists>rs sS sL.
     Striped_run unat (StripedHashSet_new 1 2 (5 / 4))
       [Insert (5 :: 32 word), Insert 3, Insert 8, Insert 5, Contains 3, Remove 5, Contains 5, Size]
       = Some (Inr (rs, sS))
     \<and> Linked_run (OptimisticLinkedSet_new [])
       [Insert (5 :: 32 word), Insert 3, Insert 8, Insert 5, Contains 3, Remove 5, Contains 5, Size]
       = Some (Inr (rs, sL))"
proof -
  have "\<forall>c \<in> set [Insert (5 :: 32 word), Insert 3, Insert 8, Insert 5, Contains 3, Remove 5,
                   Contains 5, Size].
          ElementTraits_Max \<notin> set_operation c"
    by (simp add: Max_uint32)
  from C8_same_results_without_Max[OF _ _ _ _ this, of 1 2 "5 / 4" unat]
  show ?thesis by simp
qed

text \<open>
  C8 as stated fails on the one call \<^verbatim>\<open>Insert(Max())\<close>: the fresh striped set adds the
  value and returns true, the fresh linked set finds the value in its tail sentinel and
  returns false.
\<close>

theorem C8_counterexample:
  "Striped_run unat (StripedHashSet_default 4) [Insert (ElementTraits_Max :: 32 word)] =
     Some (Inr ([ReturnedBool True],
       \<lparr>growth_factor_m = 2, max_load_factor_m = 1, num_elements_m = 1, num_stripes_m = 4,
        hash_table_m = [[], [], [], [4294967295]]\<rparr>))
   \<and> Linked_run (OptimisticLinkedSet_new []) [Insert (ElementTraits_Max :: 32 word)] =
     Some (Inr ([ReturnedBool False],
       \<lparr>allocator_m = [\<lparr>element_m = 0, next_m = Some 1, marked_m = False\<rparr>,
                       \<lparr>element_m = 4294967295, next_m = None, marked_m = False\<rparr>],
        head_m = Some 0,
        elements_m = 0\<rparr>))"
proof -
  have "Striped_Insert unat (StripedHashSet_default 4) (4294967295 :: 32 word) =
     Some (Inr (True,
       \<lparr>growth_factor_m = 2, max_load_factor_m = 1, num_elements_m = 1, num_stripes_m = 4,
        hash_table_m = [[], [], [], [4294967295]]\<rparr>))"
    by (subst Striped_Insert.simps)
       (simp add: StripedHashSet_default_def StripedHashSet_new_def GetStripeIndex_def
          GetBucketIndex_def GetLoadFactor_def four_buckets)
  then have "Striped_run unat (StripedHashSet_default 4) [Insert (ElementTraits_Max :: 32 word)] =
     Some (Inr ([ReturnedBool True],
       \<lparr>growth_factor_m = 2, max_load_factor_m = 1, num_elements_m = 1, num_stripes_m = 4,
        hash_table_m = [[], [], [], [4294967295]]\<rparr>))"
    by (simp add: Max_uint32)
  moreover have "Linked_run (OptimisticLinkedSet_new []) [Insert (ElementTraits_Max :: 32 word)] =
     Some (Inr ([ReturnedBool False],
       \<lparr>allocator_m = [\<lparr>element_m = 0, next_m = Some 1, marked_m = False\<rparr>,
                       \<lparr>element_m = 4294967295, next_m = None, marked_m = False\<rparr>],
        head_m = Some 0,
        elements_m = 0\<rparr>))"
    by code_simp
  ultimately show ?thesis by blast
qed


section \<open>The marked flag is never set\<close>

text \<open>
  C9. In every state that a list of calls reaches from a set constructed on an empty
  arena, no node of the arena is marked, whether it is on the chain or was unlinked; so
  for an edge of two allocated nodes \<^verbatim>\<open>Validate\<close> returns exactly \<^verbatim>\<open>pred.next == curr\<close>,
  and \<^verbatim>\<open>Contains\<close> returns exactly whether the located node holds the argument.
\<close>

theorem C9_no_node_is_ever_marked:
  assumes "Linked_run (OptimisticLinkedSet_new []) cs = Some (Inr (rs, s))"
  shows "(\<forall>n \<in> set (allocator_m s). \<not> marked_m n)
    \<and> (\<forall>edge p c. deref (allocator_m s) (pred_m edge) = Inr p \<longrightarrow>
          deref (allocator_m s) (curr_m edge) = Inr c \<longrightarrow>
          Validate s edge = Inr (next_m p = curr_m edge))
    \<and> (\<forall>v edge c. Locate s v = Some (Inr edge) \<longrightarrow>
          deref (allocator_m s) (curr_m edge) = Inr c \<longrightarrow>
          Linked_Contains s v = Some (Inr (element_m c = v)))"
proof -
  have "unmarked (allocator_m s)"
    by (rule Linked_run_unmarked[OF assms], rule unmarked_new) (simp add: unmarked_def)
  then show ?thesis
    using Validate_unmarked Contains_unmarked unfolding unmarked_def by blast
qed

text \<open>
  After \<^verbatim>\<open>Insert(5)\<close> and \<^verbatim>\<open>Remove(5)\<close> the unlinked node of 5 is at address 2 and is
  not marked; the edge from the head to that node is allocated and \<^verbatim>\<open>Validate\<close> rejects
  it only because the head no longer points to it.
\<close>

theorem C9_no_node_is_ever_marked_witness:
  "Linked_run (OptimisticLinkedSet_new []) [Insert (5 :: 32 word), Remove 5] =
     Some (Inr ([ReturnedBool True, ReturnedBool True],
       \<lparr>allocator_m = [\<lparr>element_m = 0, next_m = Some 1, marked_m = False\<rparr>,
                       \<lparr>element_m = 4294967295, next_m = None, marked_m = False\<rparr>,
                       \<lparr>element_m = 5, next_m = Some 1, marked_m = False\<rparr>],
        head_m = Some 0,
        elements_m = 0\<rparr>))
   \<and> \<not> marked_m (\<lparr>element_m = 5 :: 32 word, next_m = Some 1, marked_m = False\<rparr>)
   \<and> Validate
       \<lparr>allocator_m = [\<lparr>element_m = 0 :: 32 word, next_m = Some 1, marked_m = False\<rparr>,
                       \<lparr>element_m = 4294967295, next_m = None, marked_m = False\<rparr>,
                       \<lparr>element_m = 5, next_m = Some 1, marked_m = False\<rparr>],
        head_m = Some 0,
        elements_m = 0\<rparr>
       \<lparr>pred_m = Some 0, curr_m = Some 2\<rparr> = Inr False"
proof -
  let ?s = "\<lparr>allocator_m = [\<lparr>element_m = 0 :: 32 word, next_m = Some 1, marked_m = False\<rparr>,
                       \<lparr>element_m = 4294967295, next_m = None, marked_m = False\<rparr>,
                       \<lparr>element_m = 5, next_m = Some 1, marked_m = False\<rparr>],
        head_m = Some 0,
        elements_m = 0\<rparr>"
  have run: "Linked_run (OptimisticLinkedSet_new []) [Insert (5 :: 32 word), Remove 5] =
     Some (Inr ([ReturnedBool True, ReturnedBool True], ?s))"
    by code_simp
  from C9_no_node_is_ever_marked[OF run]
  have all: "\<forall>n \<in> set (allocator_m ?s). \<not> marked_m n"
    and val: "\<forall>edge p c. deref (allocator_m ?s) (pred_m edge) = Inr p \<longrightarrow>
          deref (allocator_m ?s) (curr_m edge) = Inr c \<longrightarrow>
          Validate ?s edge = Inr (next_m p = curr_m edge)"
    by blast+
  have 1: "\<not> marked_m (\<lparr>element_m = 5 :: 32 word, next_m = Some 1, marked_m = False\<rparr>)"
    using all by simp
  have p: "deref (allocator_m ?s) (pred_m \<lparr>pred_m = Some 0, curr_m = Some 2\<rparr>)
             = Inr \<lparr>element_m = 0, next_m = Some 1, marked_m = False\<rparr>"
    and c: "deref (allocator_m ?s) (curr_m \<lparr>pred_m = Some 0, curr_m = Some 2\<rparr>)
             = Inr \<lparr>element_m = 5, next_m = Some 1, marked_m = False\<rparr>"
    by (simp_all add: deref_def)
  have 2: "Validate ?s \<lparr>pred_m = Some 0, curr_m = Some 2\<rparr> = Inr False"
    using val[rule_format, OF p c] by simp
  show ?thesis using run 1 2 by blast
qed


section \<open>Inserting the greatest value\<close>

text \<open>
  C10. The claim: \<^verbatim>\<open>Insert(Max())\<close> returns false in every state. It does so in every
  state whose chain still ends at the tail sentinel (lemma \<open>Linked_Insert_Max_rep\<close>). But
  \<^verbatim>\<open>Remove(Max())\<close> on a fresh set over \<^verbatim>\<open>uint32_t\<close> unlinks the tail sentinel; in the
  state it leaves behind, \<^verbatim>\<open>Locate\<close> walks past the head into \<^verbatim>\<open>nullptr\<close>, and
  \<^verbatim>\<open>Insert(Max())\<close> dereferences it instead of returning false.
\<close>

theorem C10_Insert_Max_after_Remove_Max:
  "Linked_run (OptimisticLinkedSet_new []) [Remove (ElementTraits_Max :: 32 word), Insert ElementTraits_Max]
     = Some (Inl NullDereference)"
  by code_simp

end
